theory Spec2Isabelle
  imports Main "HOL-Library.Word" "HOL-Library.Sublist"
begin

section \<open>Strings\<close>

text \<open>
  A JavaScript string is modelled as a \<^typ>\<open>string\<close>: a list of code units, here
  restricted to the code units below 256. Strict equality of two strings is equality of
  the two lists.
\<close>

definition LF :: char where
  "LF = CHR 0x0A"

definition CR :: char where
  "CR = CHR 0x0D"

text \<open>\<open>Array.prototype.join\<close>: the elements separated by \<open>sep\<close>; the empty string for no element.\<close>

fun join :: "string \<Rightarrow> string list \<Rightarrow> string" where
  "join sep [] = []"
| "join sep [x] = x"
| "join sep (x # y # ys) = x @ sep @ join sep (y # ys)"

text \<open>
  \<open>String.prototype.trim\<close> removes white space and line terminators from both ends.
  Of the code units below 256 these are tab, line feed, vertical tab, form feed, carriage
  return, space and the no-break space.
\<close>

definition isWhiteSpace :: "char \<Rightarrow> bool" where
  "isWhiteSpace c \<longleftrightarrow>
     c = CHR 0x09 \<or> c = CHR 0x0A \<or> c = CHR 0x0B \<or> c = CHR 0x0C \<or> c = CHR 0x0D \<or>
     c = CHR 0x20 \<or> c = CHR 0xA0"

definition trim :: "string \<Rightarrow> string" where
  "trim s = rev (dropWhile isWhiteSpace (rev (dropWhile isWhiteSpace s)))"

text \<open>
  \<open>String(n)\<close> for an integer \<open>n\<close> of magnitude below \<open>10\<^sup>2\<^sup>1\<close>: its decimal
  digits, after a minus sign when it is negative. It is used for exit codes and HTTP
  statuses, which are far below that bound.
\<close>

definition digitChar :: "nat \<Rightarrow> char" where
  "digitChar d = ''0123456789'' ! d"

function showNat :: "nat \<Rightarrow> string" where
  "showNat n = (if n < 10 then [digitChar n] else showNat (n div 10) @ [digitChar (n mod 10)])"
  by pat_completeness auto
termination
  by (relation "measure (\<lambda>n. n)") auto

definition showInt :: "int \<Rightarrow> string" where
  "showInt i = (if i < 0 then CHR ''-'' # showNat (nat (- i)) else showNat (nat i))"

section \<open>Line tokenizer (src/modules/writing-improver.ts, splitLines)\<close>

text \<open>
  \<open>text.split(/\r?\n/)\<close>: the scan keeps the line read so far in \<open>cur\<close>. At each
  position the pattern matches a line feed, or a carriage return directly followed by a
  line feed; a match closes the current line. The end of the text closes the last line,
  so the result is never empty.
\<close>

fun splitLinesFrom :: "string \<Rightarrow> string \<Rightarrow> string list" where
  "splitLinesFrom cur [] = [cur]"
| "splitLinesFrom cur [c] = (if c = LF then [cur, []] else [cur @ [c]])"
| "splitLinesFrom cur (c # d # cs) =
     (if c = LF then cur # splitLinesFrom [] (d # cs)
      else if c = CR \<and> d = LF then cur # splitLinesFrom [] cs
      else splitLinesFrom (cur @ [c]) (d # cs))"

definition splitLines :: "string \<Rightarrow> string list" where
  "splitLines text = splitLinesFrom [] text"

section \<open>Diff engine (src/modules/writing-improver.ts, buildUnifiedDiff)\<close>

text \<open>
  The three typed arrays of the function: \<open>directions\<close> is a \<open>Uint8Array\<close> of
  \<open>(n + 1) * cols\<close> cells, \<open>prev\<close> and \<open>curr\<close> are \<open>Uint32Array\<close>s of
  \<open>cols\<close> cells. Typed arrays start filled with zero.
\<close>

record dp_state =
  directions :: "8 word list"
  prev :: "32 word list"
  curr :: "32 word list"

text \<open>
  The body of the inner \<open>for\<close> loop at row \<open>i\<close> and column \<open>j\<close>. The loops run
  it for \<open>1 \<le> i \<le> n\<close> and \<open>1 \<le> j \<le> m\<close> only, where every index it reads or
  writes lies within its array.
\<close>

definition cell :: "string list \<Rightarrow> string list \<Rightarrow> nat \<Rightarrow> nat \<Rightarrow> dp_state \<Rightarrow> dp_state" where
  "cell originalLines updatedLines i j s =
     (let cols = length updatedLines + 1; idx = i * cols + j in
      if originalLines ! (i - 1) = updatedLines ! (j - 1) then
        s\<lparr>curr := (curr s)[j := prev s ! (j - 1) + 1],
          directions := (directions s)[idx := 3]\<rparr>
      else if prev s ! j \<ge> curr s ! (j - 1) then
        s\<lparr>curr := (curr s)[j := prev s ! j],
          directions := (directions s)[idx := 1]\<rparr>
      else
        s\<lparr>curr := (curr s)[j := curr s ! (j - 1)],
          directions := (directions s)[idx := 2]\<rparr>)"

text \<open>\<open>for (let j = 1; j <= m; j += 1)\<close>\<close>

function innerLoop :: "string list \<Rightarrow> string list \<Rightarrow> nat \<Rightarrow> nat \<Rightarrow> dp_state \<Rightarrow> dp_state" where
  "innerLoop originalLines updatedLines i j s =
     (if j \<le> length updatedLines
      then innerLoop originalLines updatedLines i (j + 1) (cell originalLines updatedLines i j s)
      else s)"
  by pat_completeness auto
termination
  by (relation "measure (\<lambda>(a, b, i, j, s). Suc (length b) - j)") auto

text \<open>
  The end of one pass of the outer loop: \<open>prev.set(curr)\<close> copies \<open>curr\<close> over
  \<open>prev\<close> (the two arrays have the same length), \<open>curr.fill(0)\<close> zeroes \<open>curr\<close>.
\<close>

definition nextRow :: "dp_state \<Rightarrow> dp_state" where
  "nextRow s = s\<lparr>prev := curr s, curr := replicate (length (curr s)) 0\<rparr>"

text \<open>\<open>for (let i = 1; i <= n; i += 1)\<close>\<close>

function outerLoop :: "string list \<Rightarrow> string list \<Rightarrow> nat \<Rightarrow> dp_state \<Rightarrow> dp_state" where
  "outerLoop originalLines updatedLines i s =
     (if i \<le> length originalLines
      then outerLoop originalLines updatedLines (i + 1)
             (nextRow (innerLoop originalLines updatedLines i 1 s))
      else s)"
  by pat_completeness auto
termination
  by (relation "measure (\<lambda>(a, b, i, s). Suc (length a) - i)") auto

text \<open>
  The backtrace \<open>while (i > 0 || j > 0)\<close>. Each of the three \<open>if\<close> blocks ends in
  \<open>continue\<close>; when none of them is entered the body falls through and the loop
  runs again on the same \<open>i\<close> and \<open>j\<close>, which is the last branch below. The
  termination proof shows that this branch is never reached.
\<close>

function backtrace ::
  "string list \<Rightarrow> string list \<Rightarrow> 8 word list \<Rightarrow> nat \<Rightarrow> nat \<Rightarrow> string list \<Rightarrow> string list" where
  "backtrace originalLines updatedLines dirs i j diffLines =
     (if i > 0 \<or> j > 0 then
        if i > 0 \<and> j > 0 \<and> dirs ! (i * (length updatedLines + 1) + j) = 3 then
          backtrace originalLines updatedLines dirs (i - 1) (j - 1)
            (diffLines @ [CHR '' '' # updatedLines ! (j - 1)])
        else if j > 0 \<and> (i = 0 \<or> dirs ! (i * (length updatedLines + 1) + j) = 2) then
          backtrace originalLines updatedLines dirs i (j - 1)
            (diffLines @ [CHR ''+'' # updatedLines ! (j - 1)])
        else if i > 0 then
          backtrace originalLines updatedLines dirs (i - 1) j
            (diffLines @ [CHR ''-'' # originalLines ! (i - 1)])
        else backtrace originalLines updatedLines dirs i j diffLines
      else diffLines)"
  by pat_completeness auto
termination
  by (relation "measure (\<lambda>(a, b, dirs, i, j, acc). i + j)") auto

definition tooLargeMessage :: string where
  "tooLargeMessage =
     ''Diff is too large to render safely. Apply to inspect full changes in note view.''"

text \<open>The arrays as allocated, before the first pass.\<close>

definition initialState :: "nat \<Rightarrow> nat \<Rightarrow> dp_state" where
  "initialState n m =
     \<lparr>directions = replicate ((n + 1) * (m + 1)) 0,
      prev = replicate (m + 1) 0,
      curr = replicate (m + 1) 0\<rparr>"

text \<open>The value of \<open>diffLines.reverse()\<close> on the path that computes a diff.\<close>

definition diffLinesOf :: "string list \<Rightarrow> string list \<Rightarrow> string list" where
  "diffLinesOf originalLines updatedLines =
     (let n = length originalLines; m = length updatedLines;
          s = outerLoop originalLines updatedLines 1 (initialState n m)
      in rev (backtrace originalLines updatedLines (directions s) n m []))"

definition buildUnifiedDiff :: "string \<Rightarrow> string \<Rightarrow> string" where
  "buildUnifiedDiff originalText updatedText =
     (let originalLines = splitLines originalText;
          updatedLines = splitLines updatedText;
          n = length originalLines;
          m = length updatedLines
      in if n * m > 250000 then tooLargeMessage
         else join [LF] (diffLinesOf originalLines updatedLines))"

section \<open>Reading a rendered diff (src/modules/writing-improver.ts, renderDiffPreview)\<close>

text \<open>
  \<open>diffText.split("\n")\<close>: the reader of the rendered diff cuts it at every line
  feed.
\<close>

fun splitNewlineFrom :: "string \<Rightarrow> string \<Rightarrow> string list" where
  "splitNewlineFrom cur [] = [cur]"
| "splitNewlineFrom cur (c # cs) =
     (if c = LF then cur # splitNewlineFrom [] cs else splitNewlineFrom (cur @ [c]) cs)"

text \<open>
  The operation a rendered line stands for, told from its first character as
  \<open>renderDiffPreview\<close> tells the colour: \<open>+\<close> is an inserted line, \<open>-\<close> a deleted
  line, anything else an unchanged line. The line carried is what follows the tag.
\<close>

datatype EditOp = Equal string | Insert string | Delete string

fun lineOp :: "string \<Rightarrow> EditOp" where
  "lineOp [] = Equal []"
| "lineOp (c # l) =
     (if c = CHR ''+'' then Insert l else if c = CHR ''-'' then Delete l else Equal l)"

definition editScript :: "string \<Rightarrow> EditOp list" where
  "editScript diffText = map lineOp (splitNewlineFrom [] diffText)"

fun originalLine :: "EditOp \<Rightarrow> string list" where
  "originalLine (Equal l) = [l]"
| "originalLine (Delete l) = [l]"
| "originalLine (Insert l) = []"

fun updatedLine :: "EditOp \<Rightarrow> string list" where
  "updatedLine (Equal l) = [l]"
| "updatedLine (Insert l) = [l]"
| "updatedLine (Delete l) = []"

text \<open>The lines of the Equal and Delete operations, and of the Equal and Insert operations, in order.\<close>

definition originalOf :: "EditOp list \<Rightarrow> string list" where
  "originalOf ops = concat (map originalLine ops)"

definition updatedOf :: "EditOp list \<Rightarrow> string list" where
  "updatedOf ops = concat (map updatedLine ops)"

fun isEqual :: "EditOp \<Rightarrow> bool" where
  "isEqual (Equal l) = True"
| "isEqual (Insert l) = False"
| "isEqual (Delete l) = False"

fun isInsert :: "EditOp \<Rightarrow> bool" where
  "isInsert (Insert l) = True"
| "isInsert (Equal l) = False"
| "isInsert (Delete l) = False"

fun isDelete :: "EditOp \<Rightarrow> bool" where
  "isDelete (Delete l) = True"
| "isDelete (Equal l) = False"
| "isDelete (Insert l) = False"

definition equalCount :: "EditOp list \<Rightarrow> nat" where
  "equalCount ops = length (filter isEqual ops)"

definition insertCount :: "EditOp list \<Rightarrow> nat" where
  "insertCount ops = length (filter isInsert ops)"

definition deleteCount :: "EditOp list \<Rightarrow> nat" where
  "deleteCount ops = length (filter isDelete ops)"

section \<open>Backend client (src/ai/client.ts)\<close>

datatype AiBackend = codex_cli | openai_api

datatype ApiStyle = responses | chat_completions

text \<open>
  The fields of \<open>ObsidianAiPluginSettings\<close> (src/settings.ts) that select the backend
  and shape the Codex CLI call. The settings have no thread mode and no thread id.
\<close>

record ObsidianAiPluginSettings =
  aiBackend :: AiBackend
  apiStyle :: ApiStyle
  codexCommand :: string
  model :: string




section \<open>Process invoker (src/ai/client.ts, spawnCommand)\<close>

text \<open>
  The promise executor of \<open>spawnCommand\<close> registers four callbacks and returns; from
  then on the run is the sequence of callbacks the event loop makes, one at a time. The
  state is what the callbacks share: the two buffers and the \<open>settled\<close> flag, and, to
  observe the effects, whether \<open>clearTimeout\<close> was called, the signals sent to the
  child, and the calls of \<open>resolve\<close> and \<open>reject\<close> in the order they were made.
\<close>

datatype settlement = Resolve string | Reject string

record spawn_state =
  stdout :: string
  stderr :: string
  settled :: bool
  timerCleared :: bool
  killSignals :: "string list"
  calls :: "settlement list"

definition spawnInitial :: spawn_state where
  "spawnInitial =
     \<lparr>stdout = [], stderr = [], settled = False, timerCleared = False,
      killSignals = [], calls = []\<rparr>"

text \<open>
  The callback of \<open>window.setTimeout\<close>. Its message interpolates \<open>timeoutMs\<close>, a
  JavaScript number; \<open>timeoutMsText\<close> is the text that the template literal gives for
  that number (its decimal digits when it is an integer below \<open>10\<^sup>2\<^sup>1\<close>).
\<close>

definition onTimeout :: "string \<Rightarrow> spawn_state \<Rightarrow> spawn_state" where
  "onTimeout timeoutMsText s =
     (if settled s then s
      else s\<lparr>settled := True,
             killSignals := killSignals s @ [''SIGTERM''],
             calls := calls s @ [Reject (''Codex CLI timed out after '' @ timeoutMsText @ ''ms.'')]\<rparr>)"

text \<open>The \<open>data\<close> callbacks of the two pipes.\<close>

definition onStdoutData :: "string \<Rightarrow> spawn_state \<Rightarrow> spawn_state" where
  "onStdoutData chunk s = s\<lparr>stdout := stdout s @ chunk\<rparr>"

definition onStderrData :: "string \<Rightarrow> spawn_state \<Rightarrow> spawn_state" where
  "onStderrData chunk s = s\<lparr>stderr := stderr s @ chunk\<rparr>"

text \<open>
  \<open>String(code)\<close> for the exit code: \<open>null\<close>, or the exit status of a process, an
  integer of at most 32 bits.
\<close>

definition showCode :: "int option \<Rightarrow> string" where
  "showCode code = (case code of None \<Rightarrow> ''null'' | Some n \<Rightarrow> showInt n)"

text \<open>The \<open>close\<close> callback of the child.\<close>

definition onClose :: "int option \<Rightarrow> spawn_state \<Rightarrow> spawn_state" where
  "onClose code s =
     (if settled s then s
      else
        let s1 = s\<lparr>settled := True, timerCleared := True\<rparr> in
        if code = Some 0 then s1\<lparr>calls := calls s1 @ [Resolve (trim (stdout s1))]\<rparr>
        else
          let err = (if trim (stderr s1) \<noteq> [] then trim (stderr s1)
                     else ''Codex CLI exited with code '' @ showCode code @ ''.'')
          in s1\<lparr>calls := calls s1 @ [Reject err]\<rparr>)"

text \<open>
  What the event loop can deliver. A timer that was cleared does not fire, so its
  callback is not run then.
\<close>

datatype event = StdoutData string | StderrData string | TimerFired | Close "int option"

fun deliver :: "string \<Rightarrow> spawn_state \<Rightarrow> event \<Rightarrow> spawn_state" where
  "deliver timeoutMsText s (StdoutData chunk) = onStdoutData chunk s"
| "deliver timeoutMsText s (StderrData chunk) = onStderrData chunk s"
| "deliver timeoutMsText s TimerFired = (if timerCleared s then s else onTimeout timeoutMsText s)"
| "deliver timeoutMsText s (Close code) = onClose code s"

definition spawnRun :: "string \<Rightarrow> event list \<Rightarrow> spawn_state" where
  "spawnRun timeoutMsText evs = foldl (deliver timeoutMsText) spawnInitial evs"

text \<open>A promise is settled by the first call of \<open>resolve\<close> or \<open>reject\<close>; later calls are ignored.\<close>

definition outcome :: "spawn_state \<Rightarrow> settlement option" where
  "outcome s = (case calls s of [] \<Rightarrow> None | c # cs \<Rightarrow> Some c)"

fun isData :: "event \<Rightarrow> bool" where
  "isData (StdoutData chunk) = True"
| "isData (StderrData chunk) = True"
| "isData TimerFired = False"
| "isData (Close code) = False"

fun stdoutChunk :: "event \<Rightarrow> string" where
  "stdoutChunk (StdoutData chunk) = chunk"
| "stdoutChunk e = []"

fun stderrChunk :: "event \<Rightarrow> string" where
  "stderrChunk (StderrData chunk) = chunk"
| "stderrChunk e = []"

section \<open>Response normalization (src/ai/client.ts)\<close>

text \<open>
  A parsed JSON value. The entries of an object are kept as a list of pairs with distinct
  keys; a number is kept as an integer, which is all the paths modelled here look at.
\<close>

datatype json =
  JNull | JBool bool | JNum int | JStr string | JArr "json list" | JObj "(string \<times> json) list"

text \<open>
  Reading a property with optional chaining, \<open>value?.key\<close>: only an object has the
  properties read here; \<open>None\<close> is \<open>undefined\<close>.
\<close>

fun getProp :: "json \<Rightarrow> string \<Rightarrow> json option" where
  "getProp (JObj entries) key = map_of entries key"
| "getProp v key = None"

text \<open>The inner loop of \<open>extractTextFromResponseOutput\<close>, over the blocks of one item.\<close>

fun collectBlocks :: "json list \<Rightarrow> string list \<Rightarrow> string list" where
  "collectBlocks [] chunks = chunks"
| "collectBlocks (block # rest) chunks =
     (case getProp block ''text'' of
        Some (JStr t) \<Rightarrow>
          if trim t \<noteq> [] then collectBlocks rest (chunks @ [trim t])
          else collectBlocks rest chunks
      | _ \<Rightarrow> collectBlocks rest chunks)"

text \<open>The outer loop, over the items of the output list.\<close>

fun collectItems :: "json list \<Rightarrow> string list \<Rightarrow> string list" where
  "collectItems [] chunks = chunks"
| "collectItems (item # rest) chunks =
     (case getProp item ''content'' of
        Some (JArr content) \<Rightarrow> collectItems rest (collectBlocks content chunks)
      | _ \<Rightarrow> collectItems rest chunks)"

definition extractTextFromResponseOutput :: "json option \<Rightarrow> string" where
  "extractTextFromResponseOutput output =
     (case output of
        Some (JArr items) \<Rightarrow> trim (join [LF, LF] (collectItems items []))
      | _ \<Rightarrow> [])"

text \<open>\<open>readApiError\<close>: the message of the error object, else the top-level message, else a generic text.\<close>

definition readApiError :: "json \<Rightarrow> nat \<Rightarrow> string" where
  "readApiError js status =
     (let fromError = (case getProp js ''error'' of
                         Some e \<Rightarrow> getProp e ''message''
                       | None \<Rightarrow> None);
          message = (case fromError of
                       None \<Rightarrow> getProp js ''message''
                     | Some JNull \<Rightarrow> getProp js ''message''
                     | Some v \<Rightarrow> Some v)
      in case message of
           Some (JStr m) \<Rightarrow>
             if trim m \<noteq> [] then trim m
             else ''API request failed with status '' @ showNat status @ ''.''
         | _ \<Rightarrow> ''API request failed with status '' @ showNat status @ ''.'')"

text \<open>
  \<open>improveWithResponses\<close> from the point where \<open>postJson\<close> has returned the status
  and the parsed body. \<open>Inl\<close> carries the message of the error thrown. Reading a
  property of \<open>null\<close>, and calling \<open>trim\<close> on a value that is not a string, throw a
  \<open>TypeError\<close>.
\<close>

definition improveWithResponses :: "nat \<Rightarrow> json \<Rightarrow> string + string" where
  "improveWithResponses status body =
     (if status \<ge> 400 then Inl (readApiError body status)
      else if body = JNull then Inl ''TypeError''
      else
        case (case getProp body ''output_text'' of
                None \<Rightarrow> Some []
              | Some JNull \<Rightarrow> Some []
              | Some (JStr t) \<Rightarrow> Some t
              | Some v \<Rightarrow> None) of
          None \<Rightarrow> Inl ''TypeError''
        | Some topText \<Rightarrow>
            if trim topText \<noteq> [] then Inr (trim topText)
            else
              let textFromOutput = extractTextFromResponseOutput (getProp body ''output'')
              in if textFromOutput = [] then Inl ''AI API returned no text.''
                 else Inr textFromOutput)"

text \<open>
  Every nested text block of an output list, across every item, in list order: the text
  fields that are strings, item by item and block by block. This is what the collected
  chunks are compared with.
\<close>

definition blockTexts :: "json \<Rightarrow> string list" where
  "blockTexts item =
     (case getProp item ''content'' of
        Some (JArr content) \<Rightarrow>
          concat (map (\<lambda>block. case getProp block ''text'' of Some (JStr t) \<Rightarrow> [t] | _ \<Rightarrow> []) content)
      | _ \<Rightarrow> [])"

definition textBlocks :: "json list \<Rightarrow> string list" where
  "textBlocks items = concat (map blockTexts items)"

text \<open>
  The segments of a normalized text: the pieces between its blank lines, as
  \<open>split("\n\n")\<close> cuts it at the separator the chunks are joined with.
\<close>

fun segmentsFrom :: "string \<Rightarrow> string \<Rightarrow> string list" where
  "segmentsFrom cur [] = [cur]"
| "segmentsFrom cur [c] = [cur @ [c]]"
| "segmentsFrom cur (c # d # cs) =
     (if c = LF \<and> d = LF then cur # segmentsFrom [] cs
      else segmentsFrom (cur @ [c]) (d # cs))"

definition segmentsOf :: "string \<Rightarrow> string list" where
  "segmentsOf normalized = segmentsFrom [] normalized"

section \<open>Longest common subsequences\<close>

text \<open>\<open>k\<close> is the length of a longest common subsequence of \<open>a\<close> and \<open>b\<close>.\<close>

definition isLcsLength :: "'a list \<Rightarrow> 'a list \<Rightarrow> nat \<Rightarrow> bool" where
  "isLcsLength a b k \<longleftrightarrow>
     (\<exists>zs. subseq zs a \<and> subseq zs b \<and> length zs = k) \<and>
     (\<forall>zs. subseq zs a \<and> subseq zs b \<longrightarrow> length zs \<le> k)"

text \<open>
  The table the two score rows run through: \<open>lcsTable a b i j\<close> is the score of row
  \<open>i\<close>, column \<open>j\<close>, and \<open>dirOf a b i j\<close> the direction written for that cell.
\<close>

fun lcsTable :: "'a list \<Rightarrow> 'a list \<Rightarrow> nat \<Rightarrow> nat \<Rightarrow> nat" where
  "lcsTable a b 0 j = 0"
| "lcsTable a b (Suc i) 0 = 0"
| "lcsTable a b (Suc i) (Suc j) =
     (if a ! i = b ! j then lcsTable a b i j + 1
      else if lcsTable a b i (Suc j) \<ge> lcsTable a b (Suc i) j then lcsTable a b i (Suc j)
      else lcsTable a b (Suc i) j)"

definition dirOf :: "'a list \<Rightarrow> 'a list \<Rightarrow> nat \<Rightarrow> nat \<Rightarrow> 8 word" where
  "dirOf a b i j =
     (if a ! (i - 1) = b ! (j - 1) then 3
      else if lcsTable a b (i - 1) j \<ge> lcsTable a b i (j - 1) then 1 else 2)"

section \<open>Invariants\<close>

text \<open>The state of the arrays when the inner loop is about to write row \<open>i\<close>, column \<open>j\<close>.\<close>

definition rowInv :: "string list \<Rightarrow> string list \<Rightarrow> nat \<Rightarrow> nat \<Rightarrow> dp_state \<Rightarrow> bool" where
  "rowInv a b i j s \<longleftrightarrow>
     length (curr s) = length b + 1 \<and> length (prev s) = length b + 1 \<and>
     length (directions s) = (length a + 1) * (length b + 1) \<and>
     (\<forall>j' \<le> length b. unat (prev s ! j') = lcsTable a b (i - 1) j') \<and>
     (\<forall>j' < j. unat (curr s ! j') = lcsTable a b i j') \<and>
     (\<forall>i' j'. 0 < i' \<and> i' \<le> length a \<and> 0 < j' \<and> j' \<le> length b \<and>
         (i' < i \<or> (i' = i \<and> j' < j)) \<longrightarrow>
         directions s ! (i' * (length b + 1) + j') = dirOf a b i' j')"

text \<open>The state of the arrays when the outer loop is about to start row \<open>i\<close>.\<close>

definition tableInv :: "string list \<Rightarrow> string list \<Rightarrow> nat \<Rightarrow> dp_state \<Rightarrow> bool" where
  "tableInv a b i s \<longleftrightarrow>
     length (curr s) = length b + 1 \<and> length (prev s) = length b + 1 \<and>
     length (directions s) = (length a + 1) * (length b + 1) \<and>
     (\<forall>j' \<le> length b. unat (prev s ! j') = lcsTable a b (i - 1) j') \<and>
     (\<forall>j' \<le> length b. curr s ! j' = 0) \<and>
     (\<forall>i' j'. 0 < i' \<and> i' \<le> length a \<and> 0 < j' \<and> j' \<le> length b \<and> i' < i \<longrightarrow>
         directions s ! (i' * (length b + 1) + j') = dirOf a b i' j')"

text \<open>Every cell of the direction grid that the backtrace reads holds the direction of the table.\<close>

definition dirsOf :: "string list \<Rightarrow> string list \<Rightarrow> 8 word list \<Rightarrow> bool" where
  "dirsOf a b dirs \<longleftrightarrow>
     (\<forall>i j. 0 < i \<and> i \<le> length a \<and> 0 < j \<and> j \<le> length b \<longrightarrow>
        dirs ! (i * (length b + 1) + j) = dirOf a b i j)"

text \<open>
  Between two callbacks of a run of the process invoker: when \<open>settled\<close> is set,
  exactly one call of \<open>resolve\<close> or \<open>reject\<close> has been made; when it is not set,
  none has.
\<close>

definition settleInv :: "spawn_state \<Rightarrow> bool" where
  "settleInv s \<longleftrightarrow> (if settled s then length (calls s) = 1 else calls s = [])"

text \<open>A text that is non-empty and neither starts nor ends with white space.\<close>

definition cleanChunk :: "string \<Rightarrow> bool" where
  "cleanChunk c \<longleftrightarrow> c \<noteq> [] \<and> \<not> isWhiteSpace (hd c) \<and> \<not> isWhiteSpace (last c)"

section \<open>The tokenizer and the reader of a rendered diff\<close>

declare backtrace.simps [simp del] innerLoop.simps [simp del] outerLoop.simps [simp del]

declare showNat.simps [simp del]

lemma splitNewlineFrom_noLF: "LF \<notin> set l \<Longrightarrow> splitNewlineFrom cur l = [cur @ l]"
  by (induction l arbitrary: cur) auto

lemma splitNewlineFrom_line:
  "LF \<notin> set l \<Longrightarrow> splitNewlineFrom cur (l @ LF # rest) = (cur @ l) # splitNewlineFrom [] rest"
  by (induction l arbitrary: cur) auto

lemma splitNewline_join:
  "ls \<noteq> [] \<Longrightarrow> \<forall>l\<in>set ls. LF \<notin> set l \<Longrightarrow> splitNewlineFrom [] (join [LF] ls) = ls"
proof (induction ls rule: induct_list012)
  case 1
  then show ?case by simp
next
  case (2 x)
  then show ?case by (simp add: splitNewlineFrom_noLF)
next
  case (3 x y zs)
  have "splitNewlineFrom [] (join [LF] (x # y # zs)) =
        splitNewlineFrom [] (x @ LF # join [LF] (y # zs))" by simp
  also have "\<dots> = ([] @ x) # splitNewlineFrom [] (join [LF] (y # zs))"
    using "3.prems" by (intro splitNewlineFrom_line) simp
  also have "\<dots> = x # y # zs" using "3.IH"(2) "3.prems" by simp
  finally show ?case .
qed

lemma splitLinesFrom_noLF:
  "LF \<notin> set cur \<Longrightarrow> l \<in> set (splitLinesFrom cur t) \<Longrightarrow> LF \<notin> set l"
  by (induction cur t rule: splitLinesFrom.induct) (auto split: if_splits)

lemma splitLines_noLF: "l \<in> set (splitLines t) \<Longrightarrow> LF \<notin> set l"
  unfolding splitLines_def using splitLinesFrom_noLF [of "[]" l t] by simp

lemma splitLinesFrom_nonempty: "splitLinesFrom cur t \<noteq> []"
  by (induction cur t rule: splitLinesFrom.induct) auto

lemma splitLines_length_pos: "0 < length (splitLines t)"
  by (simp add: splitLines_def splitLinesFrom_nonempty)

lemma take_last_nth: "0 < i \<Longrightarrow> i \<le> length a \<Longrightarrow> take i a = take (i - 1) a @ [a ! (i - 1)]"
  by (cases i) (simp_all add: take_Suc_conv_app_nth)

lemma dirOf_3: "dirOf a b i j = 3 \<longleftrightarrow> a ! (i - 1) = b ! (j - 1)"
  by (simp add: dirOf_def)

lemma backtrace_roundtrip:
  "dirsOf a b dirs \<Longrightarrow> i \<le> length a \<Longrightarrow> j \<le> length b \<Longrightarrow>
     originalOf (map lineOp (rev (backtrace a b dirs i j acc))) =
       take i a @ originalOf (map lineOp (rev acc)) \<and>
     updatedOf (map lineOp (rev (backtrace a b dirs i j acc))) =
       take j b @ updatedOf (map lineOp (rev acc))"
proof (induction a b dirs i j acc rule: backtrace.induct)
  case (1 a b dirs i j acc)
  let ?d = "dirs ! (i * (length b + 1) + j)"
  have d: "?d = dirOf a b i j" if "0 < i" "0 < j"
    using that "1.prems" by (simp add: dirsOf_def)
  have same: "a ! (i - 1) = b ! (j - 1)" if "0 < i" "0 < j" "?d = 3"
    using that d dirOf_3 [of a b i j] by simp
  consider (stop) "i = 0" "j = 0"
    | (eq) "0 < i" "0 < j" "?d = 3"
    | (ins) "\<not> (0 < i \<and> 0 < j \<and> ?d = 3)" "0 < j" "i = 0 \<or> ?d = 2"
    | (del) "\<not> (0 < i \<and> 0 < j \<and> ?d = 3)" "\<not> (0 < j \<and> (i = 0 \<or> ?d = 2))" "0 < i"
    by blast
  then show ?case
  proof cases
    case stop
    then show ?thesis by (subst (1 2) backtrace.simps) simp
  next
    case eq
    have bt: "backtrace a b dirs i j acc =
        backtrace a b dirs (i - 1) (j - 1) (acc @ [CHR '' '' # b ! (j - 1)])"
      using eq by (subst backtrace.simps) auto
    have ih: "originalOf (map lineOp (rev (backtrace a b dirs (i - 1) (j - 1) (acc @ [CHR '' '' # b ! (j - 1)])))) =
       take (i - 1) a @ originalOf (map lineOp (rev (acc @ [CHR '' '' # b ! (j - 1)]))) \<and>
     updatedOf (map lineOp (rev (backtrace a b dirs (i - 1) (j - 1) (acc @ [CHR '' '' # b ! (j - 1)])))) =
       take (j - 1) b @ updatedOf (map lineOp (rev (acc @ [CHR '' '' # b ! (j - 1)])))"
      using "1.IH"(1) eq "1.prems" by simp
    show ?thesis
      using ih same [OF eq] eq "1.prems"
      by (simp add: bt originalOf_def updatedOf_def take_last_nth [of i a] take_last_nth [of j b])
  next
    case ins
    have bt: "backtrace a b dirs i j acc =
        backtrace a b dirs i (j - 1) (acc @ [CHR ''+'' # b ! (j - 1)])"
      using ins by (subst backtrace.simps) auto
    have ih: "originalOf (map lineOp (rev (backtrace a b dirs i (j - 1) (acc @ [CHR ''+'' # b ! (j - 1)])))) =
       take i a @ originalOf (map lineOp (rev (acc @ [CHR ''+'' # b ! (j - 1)]))) \<and>
     updatedOf (map lineOp (rev (backtrace a b dirs i (j - 1) (acc @ [CHR ''+'' # b ! (j - 1)])))) =
       take (j - 1) b @ updatedOf (map lineOp (rev (acc @ [CHR ''+'' # b ! (j - 1)])))"
      using "1.IH"(2) ins "1.prems" by auto
    show ?thesis
      using ih ins "1.prems"
      by (simp add: bt originalOf_def updatedOf_def take_last_nth [of j b])
  next
    case del
    have bt: "backtrace a b dirs i j acc =
        backtrace a b dirs (i - 1) j (acc @ [CHR ''-'' # a ! (i - 1)])"
      using del by (subst backtrace.simps) auto
    have ih: "originalOf (map lineOp (rev (backtrace a b dirs (i - 1) j (acc @ [CHR ''-'' # a ! (i - 1)])))) =
       take (i - 1) a @ originalOf (map lineOp (rev (acc @ [CHR ''-'' # a ! (i - 1)]))) \<and>
     updatedOf (map lineOp (rev (backtrace a b dirs (i - 1) j (acc @ [CHR ''-'' # a ! (i - 1)])))) =
       take j b @ updatedOf (map lineOp (rev (acc @ [CHR ''-'' # a ! (i - 1)])))"
      using "1.IH"(3) del "1.prems" by auto
    show ?thesis
      using ih del "1.prems"
      by (simp add: bt originalOf_def updatedOf_def take_last_nth [of i a])
  qed
qed

lemma backtrace_lines:
  "i \<le> length a \<Longrightarrow> j \<le> length b \<Longrightarrow>
   \<forall>l\<in>set a. LF \<notin> set l \<Longrightarrow> \<forall>l\<in>set b. LF \<notin> set l \<Longrightarrow>
   \<forall>l\<in>set acc. LF \<notin> set l \<and> l \<noteq> [] \<and> hd l \<in> {CHR '' '', CHR ''+'', CHR ''-''} \<Longrightarrow>
   \<forall>l\<in>set (backtrace a b dirs i j acc).
      LF \<notin> set l \<and> l \<noteq> [] \<and> hd l \<in> {CHR '' '', CHR ''+'', CHR ''-''}"
proof (induction a b dirs i j acc rule: backtrace.induct)
  case (1 a b dirs i j acc)
  let ?d = "dirs ! (i * (length b + 1) + j)"
  let ?Q = "\<lambda>l. LF \<notin> set l \<and> l \<noteq> [] \<and> hd l \<in> {CHR '' '', CHR ''+'', CHR ''-''}"
  have qa: "LF \<notin> set (a ! (i - 1))" if "0 < i" using that "1.prems" by simp
  have qb: "LF \<notin> set (b ! (j - 1))" if "0 < j" using that "1.prems" by simp
  consider (stop) "i = 0" "j = 0"
    | (eq) "0 < i" "0 < j" "?d = 3"
    | (ins) "\<not> (0 < i \<and> 0 < j \<and> ?d = 3)" "0 < j" "i = 0 \<or> ?d = 2"
    | (del) "\<not> (0 < i \<and> 0 < j \<and> ?d = 3)" "\<not> (0 < j \<and> (i = 0 \<or> ?d = 2))" "0 < i"
    by blast
  then show ?case
  proof cases
    case stop
    then show ?thesis using "1.prems" by (subst backtrace.simps) simp
  next
    case eq
    have bt: "backtrace a b dirs i j acc =
        backtrace a b dirs (i - 1) (j - 1) (acc @ [CHR '' '' # b ! (j - 1)])"
      using eq by (subst backtrace.simps) auto
    have "\<forall>l\<in>set (acc @ [CHR '' '' # b ! (j - 1)]). ?Q l"
      using "1.prems"(5) qb [OF eq(2)] by (auto simp: LF_def)
    then show ?thesis unfolding bt using "1.IH"(1) eq "1.prems"(1-4) by simp
  next
    case ins
    have bt: "backtrace a b dirs i j acc =
        backtrace a b dirs i (j - 1) (acc @ [CHR ''+'' # b ! (j - 1)])"
      using ins by (subst backtrace.simps) auto
    have "\<forall>l\<in>set (acc @ [CHR ''+'' # b ! (j - 1)]). ?Q l"
      using "1.prems"(5) qb [OF ins(2)] by (auto simp: LF_def)
    then show ?thesis unfolding bt using "1.IH"(2) ins "1.prems"(1-4) by auto
  next
    case del
    have bt: "backtrace a b dirs i j acc =
        backtrace a b dirs (i - 1) j (acc @ [CHR ''-'' # a ! (i - 1)])"
      using del by (subst backtrace.simps) auto
    have "\<forall>l\<in>set (acc @ [CHR ''-'' # a ! (i - 1)]). ?Q l"
      using "1.prems"(5) qa [OF del(3)] by (auto simp: LF_def)
    then show ?thesis unfolding bt using "1.IH"(3) del "1.prems"(1-4) by auto
  qed
qed

section \<open>The score rows hold the table\<close>

lemma lcsTable_0 [simp]: "lcsTable a b i 0 = 0"
  by (cases i) simp_all

lemma lcsTable_le: "lcsTable a b i j \<le> i"
  by (induction a b i j rule: lcsTable.induct) auto

lemma idx_inj:
  fixes i j i' j' c :: nat
  assumes "j < c" "j' < c" "i * c + j = i' * c + j'"
  shows "i = i' \<and> j = j'"
proof -
  have "(i * c + j) div c = i" "(i' * c + j') div c = i'" using assms(1,2) by simp_all
  then have "i = i'" using assms(3) by simp
  then show ?thesis using assms(3) by simp
qed

lemma idx_bound:
  fixes i j n m :: nat
  assumes "i \<le> n" "j \<le> m"
  shows "i * (m + 1) + j < (n + 1) * (m + 1)"
proof -
  have "i * (m + 1) \<le> n * (m + 1)" using assms(1) by (rule mult_le_mono1)
  then show ?thesis using assms(2) by simp
qed

lemma cell_directions:
  "directions (cell a b i j s) =
     (directions s)[i * (length b + 1) + j :=
        (if a ! (i - 1) = b ! (j - 1) then 3
         else if prev s ! j \<ge> curr s ! (j - 1) then 1 else 2)]"
  by (simp add: cell_def Let_def)

lemma cell_curr:
  "curr (cell a b i j s) =
     (curr s)[j :=
        (if a ! (i - 1) = b ! (j - 1) then prev s ! (j - 1) + 1
         else if prev s ! j \<ge> curr s ! (j - 1) then prev s ! j else curr s ! (j - 1))]"
  by (simp add: cell_def Let_def)

lemma cell_prev: "prev (cell a b i j s) = prev s"
  by (simp add: cell_def Let_def)

lemma cell_step:
  assumes inv: "rowInv a b (Suc i0) (Suc j0) s"
    and i: "Suc i0 \<le> length a" and j: "Suc j0 \<le> length b"
    and bound: "length a \<le> 250000"
  shows "rowInv a b (Suc i0) (Suc (Suc j0)) (cell a b (Suc i0) (Suc j0) s)"
proof -
  let ?m = "length b"
  let ?idx = "Suc i0 * (?m + 1) + Suc j0"
  let ?v = "if a ! i0 = b ! j0 then prev s ! j0 + 1
            else if prev s ! Suc j0 \<ge> curr s ! j0 then prev s ! Suc j0 else curr s ! j0"
  let ?w = "(if a ! i0 = b ! j0 then 3
            else if prev s ! Suc j0 \<ge> curr s ! j0 then 1 else 2) :: 8 word"
  from inv have lc: "length (curr s) = ?m + 1" and lp: "length (prev s) = ?m + 1"
    and ld: "length (directions s) = (length a + 1) * (?m + 1)"
    by (simp_all add: rowInv_def)
  from inv have P: "\<And>j'. j' \<le> ?m \<Longrightarrow> unat (prev s ! j') = lcsTable a b i0 j'"
    by (simp add: rowInv_def)
  from inv have C: "\<And>j'. j' < Suc j0 \<Longrightarrow> unat (curr s ! j') = lcsTable a b (Suc i0) j'"
    by (simp add: rowInv_def)
  from inv have D: "\<And>i' j'. 0 < i' \<Longrightarrow> i' \<le> length a \<Longrightarrow> 0 < j' \<Longrightarrow> j' \<le> ?m \<Longrightarrow>
      i' < Suc i0 \<or> (i' = Suc i0 \<and> j' < Suc j0) \<Longrightarrow>
      directions s ! (i' * (?m + 1) + j') = dirOf a b i' j'"
    by (simp add: rowInv_def)
  have idx_lt: "?idx < length (directions s)"
    using idx_bound [OF i j] ld by simp
  have p0: "unat (prev s ! j0) = lcsTable a b i0 j0" using P [of j0] j by simp
  have p1: "unat (prev s ! Suc j0) = lcsTable a b i0 (Suc j0)" using P [of "Suc j0"] j by simp
  have c0: "unat (curr s ! j0) = lcsTable a b (Suc i0) j0" using C [of j0] by simp
  have cmp: "(prev s ! Suc j0 \<ge> curr s ! j0) \<longleftrightarrow> lcsTable a b i0 (Suc j0) \<ge> lcsTable a b (Suc i0) j0"
    by (simp add: word_le_nat_alt p1 c0)
  have small: "unat (prev s ! j0) + unat (1 :: 32 word) < 2 ^ LENGTH(32)"
    using lcsTable_le [of a b i0 j0] i bound by (simp add: p0)
  have inc: "unat (prev s ! j0 + 1) = lcsTable a b i0 j0 + 1"
    using small p0 by (simp add: unat_add_lem [THEN iffD1])
  have val: "unat ?v = lcsTable a b (Suc i0) (Suc j0)"
    by (simp add: inc cmp p1 c0)
  have dir: "?w = dirOf a b (Suc i0) (Suc j0)"
    by (simp add: dirOf_def cmp)
  have curr': "curr (cell a b (Suc i0) (Suc j0) s) = (curr s)[Suc j0 := ?v]"
    by (simp add: cell_curr)
  have dirs': "directions (cell a b (Suc i0) (Suc j0) s) = (directions s)[?idx := ?w]"
    by (simp add: cell_directions)
  have C': "unat (curr (cell a b (Suc i0) (Suc j0) s) ! j') = lcsTable a b (Suc i0) j'"
    if "j' < Suc (Suc j0)" for j'
  proof (cases "j' = Suc j0")
    case True
    then show ?thesis unfolding curr' using val lc j by simp
  next
    case False
    then show ?thesis unfolding curr' using C [of j'] that by simp
  qed
  have D': "directions (cell a b (Suc i0) (Suc j0) s) ! (i' * (?m + 1) + j') = dirOf a b i' j'"
    if "0 < i'" "i' \<le> length a" "0 < j'" "j' \<le> ?m"
       "i' < Suc i0 \<or> (i' = Suc i0 \<and> j' < Suc (Suc j0))" for i' j'
  proof (cases "i' = Suc i0 \<and> j' = Suc j0")
    case True
    then show ?thesis unfolding dirs' using dir idx_lt by simp
  next
    case False
    have "i' * (?m + 1) + j' \<noteq> ?idx"
      using idx_inj [of j' "?m + 1" "Suc j0" i' "Suc i0"] that(4) j False by auto
    moreover have "i' < Suc i0 \<or> (i' = Suc i0 \<and> j' < Suc j0)"
      using that(5) False by auto
    ultimately show ?thesis unfolding dirs' using D [OF that(1-4)] by simp
  qed
  show ?thesis
    unfolding rowInv_def
    using C' D' P lc lp ld by (simp add: cell_prev curr' dirs')
qed

lemma innerLoop_inv:
  "rowInv a b i j s \<Longrightarrow> 0 < i \<Longrightarrow> i \<le> length a \<Longrightarrow> 0 < j \<Longrightarrow> j \<le> length b + 1 \<Longrightarrow>
   length a \<le> 250000 \<Longrightarrow> rowInv a b i (length b + 1) (innerLoop a b i j s)"
proof (induction a b i j s rule: innerLoop.induct)
  case (1 a b i j s)
  show ?case
  proof (cases "j \<le> length b")
    case True
    from \<open>0 < i\<close> obtain i0 where i0: "i = Suc i0" by (cases i) auto
    from \<open>0 < j\<close> obtain j0 where j0: "j = Suc j0" by (cases j) auto
    have "rowInv a b i (j + 1) (cell a b i j s)"
      using cell_step [of a b i0 j0 s] "1.prems" True by (simp add: i0 j0)
    then have "rowInv a b i (length b + 1) (innerLoop a b i (j + 1) (cell a b i j s))"
      using "1.IH" [OF True] "1.prems" True by simp
    then show ?thesis by (subst innerLoop.simps) (simp add: True)
  next
    case False
    then have "j = length b + 1" using "1.prems" by simp
    then show ?thesis using "1.prems"(1) by (subst innerLoop.simps) simp
  qed
qed

lemma tableInv_rowInv: "tableInv a b i s \<Longrightarrow> rowInv a b i 1 s"
  by (auto simp: tableInv_def rowInv_def)

lemma nth_Cons_replicate: "j \<le> n \<Longrightarrow> (x # replicate n x) ! j = x"
  by (cases j) simp_all

lemma rowInv_nextRow:
  assumes "rowInv a b i (length b + 1) s"
  shows "tableInv a b (i + 1) (nextRow s)"
proof -
  from assms have lc: "length (curr s) = length b + 1"
    and ld: "length (directions s) = (length a + 1) * (length b + 1)"
    by (simp_all add: rowInv_def)
  from assms have C: "\<And>j'. j' \<le> length b \<Longrightarrow> unat (curr s ! j') = lcsTable a b i j'"
    by (simp add: rowInv_def less_Suc_eq_le)
  from assms have D: "\<And>i' j'. 0 < i' \<Longrightarrow> i' \<le> length a \<Longrightarrow> 0 < j' \<Longrightarrow> j' \<le> length b \<Longrightarrow>
      i' < i \<or> (i' = i \<and> j' < length b + 1) \<Longrightarrow>
      directions s ! (i' * (length b + 1) + j') = dirOf a b i' j'"
    by (simp add: rowInv_def)
  have 1: "length (curr (nextRow s)) = length b + 1" by (simp add: nextRow_def lc)
  have 2: "length (prev (nextRow s)) = length b + 1" by (simp add: nextRow_def lc)
  have 3: "length (directions (nextRow s)) = (length a + 1) * (length b + 1)"
    by (simp add: nextRow_def ld)
  have 4: "\<forall>j' \<le> length b. unat (prev (nextRow s) ! j') = lcsTable a b (i + 1 - 1) j'"
    using C by (simp add: nextRow_def)
  have 5: "\<forall>j' \<le> length b. curr (nextRow s) ! j' = 0"
    by (simp add: nextRow_def lc nth_Cons_replicate)
  have 6: "\<forall>i' j'. 0 < i' \<and> i' \<le> length a \<and> 0 < j' \<and> j' \<le> length b \<and> i' < i + 1 \<longrightarrow>
      directions (nextRow s) ! (i' * (length b + 1) + j') = dirOf a b i' j'"
  proof (intro allI impI)
    fix i' j'
    assume h: "0 < i' \<and> i' \<le> length a \<and> 0 < j' \<and> j' \<le> length b \<and> i' < i + 1"
    then have "i' < i \<or> (i' = i \<and> j' < length b + 1)" by auto
    with h D [of i' j'] show "directions (nextRow s) ! (i' * (length b + 1) + j') = dirOf a b i' j'"
      by (simp add: nextRow_def)
  qed
  show ?thesis unfolding tableInv_def using 1 2 3 4 5 6 by blast
qed

lemma outerLoop_inv:
  "tableInv a b i s \<Longrightarrow> 0 < i \<Longrightarrow> i \<le> length a + 1 \<Longrightarrow> length a \<le> 250000 \<Longrightarrow>
   tableInv a b (length a + 1) (outerLoop a b i s)"
proof (induction a b i s rule: outerLoop.induct)
  case (1 a b i s)
  show ?case
  proof (cases "i \<le> length a")
    case True
    have "rowInv a b i (length b + 1) (innerLoop a b i 1 s)"
      using innerLoop_inv [of a b i 1 s] tableInv_rowInv "1.prems" True by simp
    then have "tableInv a b (i + 1) (nextRow (innerLoop a b i 1 s))"
      by (rule rowInv_nextRow)
    then have "tableInv a b (length a + 1) (outerLoop a b (i + 1) (nextRow (innerLoop a b i 1 s)))"
      using "1.IH" [OF True] "1.prems" True by simp
    then show ?thesis by (subst outerLoop.simps) (simp add: True)
  next
    case False
    then have "i = length a + 1" using "1.prems" by simp
    then show ?thesis using "1.prems"(1) by (subst outerLoop.simps) simp
  qed
qed

lemma tableInv_initial: "tableInv a b 1 (initialState (length a) (length b))"
  by (simp add: tableInv_def initialState_def nth_Cons_replicate)

lemma outerLoop_dirsOf:
  "length a \<le> 250000 \<Longrightarrow>
   dirsOf a b (directions (outerLoop a b 1 (initialState (length a) (length b))))"
  using outerLoop_inv [of a b 1 "initialState (length a) (length b)"] tableInv_initial [of a b]
  by (simp add: tableInv_def dirsOf_def)

section \<open>The table holds the lengths of longest common subsequences\<close>

lemma subseq_singleton_right: "subseq zs [x] \<longleftrightarrow> zs = [] \<or> zs = [x]"
  by (cases zs) (auto split: if_splits)

lemma subseq_snoc:
  "subseq zs (xs @ [x]) \<longleftrightarrow> subseq zs xs \<or> (\<exists>zs'. zs = zs' @ [x] \<and> subseq zs' xs)"
  by (auto simp: subseq_append_iff subseq_singleton_right)

lemma subseq_butlast_left: "subseq (zs @ [z]) xs \<Longrightarrow> subseq zs xs"
  by (metis list_emb_append2 subseq_order.order_refl subseq_order.order_trans subseq_rev_drop_many)

lemma lcsTable_exists:
  "i \<le> length a \<Longrightarrow> j \<le> length b \<Longrightarrow>
     \<exists>zs. subseq zs (take i a) \<and> subseq zs (take j b) \<and> length zs = lcsTable a b i j"
proof (induction a b i j rule: lcsTable.induct)
  case (1 a b j)
  then show ?case by simp
next
  case (2 a b i)
  then show ?case by simp
next
  case (3 a b i j)
  have ta: "take (Suc i) a = take i a @ [a ! i]" and tb: "take (Suc j) b = take j b @ [b ! j]"
    using "3.prems" by (simp_all add: take_Suc_conv_app_nth)
  show ?case
  proof (cases "a ! i = b ! j")
    case True
    then obtain zs where "subseq zs (take i a)" "subseq zs (take j b)" "length zs = lcsTable a b i j"
      using "3.IH"(1) "3.prems" by auto
    then have "subseq (zs @ [a ! i]) (take (Suc i) a)" "subseq (zs @ [a ! i]) (take (Suc j) b)"
      "length (zs @ [a ! i]) = lcsTable a b (Suc i) (Suc j)"
      using True by (simp_all add: ta tb)
    then show ?thesis by blast
  next
    case False
    show ?thesis
    proof (cases "lcsTable a b i (Suc j) \<ge> lcsTable a b (Suc i) j")
      case True
      obtain zs where "subseq zs (take i a)" "subseq zs (take (Suc j) b)"
        "length zs = lcsTable a b i (Suc j)"
        using "3.IH"(3) False "3.prems" by auto
      then have "subseq zs (take (Suc i) a)" "subseq zs (take (Suc j) b)"
        "length zs = lcsTable a b (Suc i) (Suc j)"
        using False True by (simp_all add: ta subseq_rev_drop_many)
      then show ?thesis by blast
    next
      case nle: False
      obtain zs where "subseq zs (take (Suc i) a)" "subseq zs (take j b)"
        "length zs = lcsTable a b (Suc i) j"
        using "3.IH"(2) False "3.prems" by auto
      then have "subseq zs (take (Suc i) a)" "subseq zs (take (Suc j) b)"
        "length zs = lcsTable a b (Suc i) (Suc j)"
        using False nle by (simp_all add: tb subseq_rev_drop_many)
      then show ?thesis by blast
    qed
  qed
qed

lemma lcsTable_upper:
  "i \<le> length a \<Longrightarrow> j \<le> length b \<Longrightarrow> subseq zs (take i a) \<Longrightarrow> subseq zs (take j b) \<Longrightarrow>
     length zs \<le> lcsTable a b i j"
proof (induction a b i j arbitrary: zs rule: lcsTable.induct)
  case (1 a b j)
  then show ?case by simp
next
  case (2 a b i)
  then show ?case by simp
next
  case (3 a b i j)
  have ta: "take (Suc i) a = take i a @ [a ! i]" and tb: "take (Suc j) b = take j b @ [b ! j]"
    using "3.prems" by (simp_all add: take_Suc_conv_app_nth)
  have sa: "subseq zs (take i a) \<or> (\<exists>zs'. zs = zs' @ [a ! i] \<and> subseq zs' (take i a))"
    using "3.prems"(3) by (simp add: ta subseq_snoc)
  have sb: "subseq zs (take j b) \<or> (\<exists>zs'. zs = zs' @ [b ! j] \<and> subseq zs' (take j b))"
    using "3.prems"(4) by (simp add: tb subseq_snoc)
  show ?case
  proof (cases "a ! i = b ! j")
    case True
    have ih: "\<And>ys. subseq ys (take i a) \<Longrightarrow> subseq ys (take j b) \<Longrightarrow> length ys \<le> lcsTable a b i j"
      using "3.IH"(1) [OF True] "3.prems"(1,2) by simp
    have "\<exists>ys. subseq ys (take i a) \<and> subseq ys (take j b) \<and> length zs \<le> length ys + 1"
    proof -
      consider (both) "subseq zs (take i a)" "subseq zs (take j b)"
        | (la) zs' where "zs = zs' @ [a ! i]" "subseq zs' (take i a)"
        | (lb) zs' where "zs = zs' @ [b ! j]" "subseq zs' (take j b)" "subseq zs (take i a)"
        using sa sb by blast
      then show ?thesis
      proof cases
        case both
        then show ?thesis by (intro exI [of _ zs]) simp
      next
        case la
        have "subseq zs' (take j b)"
          using sb la(1) subseq_butlast_left [of zs' "a ! i" "take j b"] by auto
        then show ?thesis using la by (intro exI [of _ zs']) simp
      next
        case lb
        have "subseq zs' (take i a)"
          using lb subseq_butlast_left [of zs' "b ! j" "take i a"] by auto
        then show ?thesis using lb by (intro exI [of _ zs']) simp
      qed
    qed
    then obtain ys where "subseq ys (take i a)" "subseq ys (take j b)" "length zs \<le> length ys + 1"
      by blast
    then show ?thesis using ih [of ys] True by simp
  next
    case False
    have ih1: "subseq zs (take i a) \<Longrightarrow> length zs \<le> lcsTable a b i (Suc j)"
      using "3.IH"(3) [OF False] "3.prems" by simp
    have ih2: "subseq zs (take j b) \<Longrightarrow> length zs \<le> lcsTable a b (Suc i) j"
      using "3.IH"(2) [OF False] "3.prems" by simp
    have "subseq zs (take i a) \<or> subseq zs (take j b)"
      using sa sb False by auto
    then show ?thesis using ih1 ih2 False by auto
  qed
qed

lemma lcsTable_isLcsLength: "isLcsLength a b (lcsTable a b (length a) (length b))"
  unfolding isLcsLength_def
  using lcsTable_exists [of "length a" a "length b" b] lcsTable_upper [of "length a" a "length b" b]
  by simp

lemma lcsTable_step:
  "0 < i \<Longrightarrow> 0 < j \<Longrightarrow>
   lcsTable a b i j =
     (if dirOf a b i j = 3 then lcsTable a b (i - 1) (j - 1) + 1
      else if dirOf a b i j = 2 then lcsTable a b i (j - 1)
      else lcsTable a b (i - 1) j)"
  by (cases i; cases j) (auto simp: dirOf_def)

lemma backtrace_equalCount:
  "dirsOf a b dirs \<Longrightarrow> i \<le> length a \<Longrightarrow> j \<le> length b \<Longrightarrow>
     equalCount (map lineOp (rev (backtrace a b dirs i j acc))) =
       lcsTable a b i j + equalCount (map lineOp (rev acc))"
proof (induction a b dirs i j acc rule: backtrace.induct)
  case (1 a b dirs i j acc)
  let ?d = "dirs ! (i * (length b + 1) + j)"
  have d: "?d = dirOf a b i j" if "0 < i" "0 < j"
    using that "1.prems" by (simp add: dirsOf_def)
  consider (stop) "i = 0" "j = 0"
    | (eq) "0 < i" "0 < j" "?d = 3"
    | (ins) "\<not> (0 < i \<and> 0 < j \<and> ?d = 3)" "0 < j" "i = 0 \<or> ?d = 2"
    | (del) "\<not> (0 < i \<and> 0 < j \<and> ?d = 3)" "\<not> (0 < j \<and> (i = 0 \<or> ?d = 2))" "0 < i"
    by blast
  then show ?case
  proof cases
    case stop
    then show ?thesis by (subst backtrace.simps) simp
  next
    case eq
    have bt: "backtrace a b dirs i j acc =
        backtrace a b dirs (i - 1) (j - 1) (acc @ [CHR '' '' # b ! (j - 1)])"
      using eq by (subst backtrace.simps) auto
    have ih: "equalCount (map lineOp (rev (backtrace a b dirs (i - 1) (j - 1) (acc @ [CHR '' '' # b ! (j - 1)])))) =
       lcsTable a b (i - 1) (j - 1) + equalCount (map lineOp (rev (acc @ [CHR '' '' # b ! (j - 1)])))"
      using "1.IH"(1) eq "1.prems" by simp
    have "lcsTable a b i j = lcsTable a b (i - 1) (j - 1) + 1"
      using lcsTable_step [OF eq(1,2), of a b] d [OF eq(1,2)] eq(3) by simp
    then show ?thesis
      using ih by (simp add: bt equalCount_def)
  next
    case ins
    have bt: "backtrace a b dirs i j acc =
        backtrace a b dirs i (j - 1) (acc @ [CHR ''+'' # b ! (j - 1)])"
      using ins by (subst backtrace.simps) auto
    have ih: "equalCount (map lineOp (rev (backtrace a b dirs i (j - 1) (acc @ [CHR ''+'' # b ! (j - 1)])))) =
       lcsTable a b i (j - 1) + equalCount (map lineOp (rev (acc @ [CHR ''+'' # b ! (j - 1)])))"
      using "1.IH"(2) ins "1.prems" by auto
    have "lcsTable a b i j = lcsTable a b i (j - 1)"
    proof (cases "i = 0")
      case True
      then show ?thesis by simp
    next
      case False
      then have "0 < i" by simp
      then show ?thesis
        using lcsTable_step [OF \<open>0 < i\<close> ins(2), of a b] d [OF \<open>0 < i\<close> ins(2)] ins by auto
    qed
    then show ?thesis
      using ih by (simp add: bt equalCount_def)
  next
    case del
    have bt: "backtrace a b dirs i j acc =
        backtrace a b dirs (i - 1) j (acc @ [CHR ''-'' # a ! (i - 1)])"
      using del by (subst backtrace.simps) auto
    have ih: "equalCount (map lineOp (rev (backtrace a b dirs (i - 1) j (acc @ [CHR ''-'' # a ! (i - 1)])))) =
       lcsTable a b (i - 1) j + equalCount (map lineOp (rev (acc @ [CHR ''-'' # a ! (i - 1)])))"
      using "1.IH"(3) del "1.prems" by auto
    have "lcsTable a b i j = lcsTable a b (i - 1) j"
    proof (cases "j = 0")
      case True
      then show ?thesis by simp
    next
      case False
      then have "0 < j" by simp
      then show ?thesis
        using lcsTable_step [OF del(3) \<open>0 < j\<close>, of a b] d [OF del(3) \<open>0 < j\<close>] del by auto
    qed
    then show ?thesis
      using ih by (simp add: bt equalCount_def)
  qed
qed

section \<open>The diff engine: round trip, minimality, size guard\<close>

lemma guard_length:
  fixes n m :: nat
  shows "n * m \<le> 250000 \<Longrightarrow> 0 < m \<Longrightarrow> n \<le> 250000"
  by (metis le_trans mult.right_neutral mult_le_mono2 Suc_leI One_nat_def)

lemma diffLinesOf_roundtrip:
  assumes "length a \<le> 250000"
  shows "originalOf (map lineOp (diffLinesOf a b)) = a \<and> updatedOf (map lineOp (diffLinesOf a b)) = b"
  using backtrace_roundtrip [OF outerLoop_dirsOf [OF assms, of b], of "length a" "length b" "[]"]
  by (simp add: diffLinesOf_def Let_def originalOf_def updatedOf_def)

lemma diffLinesOf_equalCount:
  assumes "length a \<le> 250000"
  shows "equalCount (map lineOp (diffLinesOf a b)) = lcsTable a b (length a) (length b)"
  using backtrace_equalCount [OF outerLoop_dirsOf [OF assms, of b], of "length a" "length b" "[]"]
  by (simp add: diffLinesOf_def Let_def equalCount_def)

lemma diffLinesOf_lines:
  assumes "\<forall>l\<in>set a. LF \<notin> set l" "\<forall>l\<in>set b. LF \<notin> set l"
  shows "\<forall>l\<in>set (diffLinesOf a b). LF \<notin> set l \<and> l \<noteq> [] \<and> hd l \<in> {CHR '' '', CHR ''+'', CHR ''-''}"
  using backtrace_lines [of "length a" a "length b" b "[]"
      "directions (outerLoop a b 1 (initialState (length a) (length b)))"] assms
  by (simp add: diffLinesOf_def Let_def)

lemma diffLinesOf_nonempty:
  assumes "length a \<le> 250000" "a \<noteq> []"
  shows "diffLinesOf a b \<noteq> []"
proof
  assume "diffLinesOf a b = []"
  then have "originalOf (map lineOp (diffLinesOf a b)) = []" by (simp add: originalOf_def)
  then show False using diffLinesOf_roundtrip [OF assms(1), of b] assms(2) by simp
qed

lemma hd_join: "ls \<noteq> [] \<Longrightarrow> hd ls \<noteq> [] \<Longrightarrow> hd (join sep ls) = hd (hd ls)"
  by (induction sep ls rule: join.induct) simp_all

lemma op_counts:
  "length (originalOf ops) = equalCount ops + deleteCount ops \<and>
   length (updatedOf ops) = equalCount ops + insertCount ops"
proof (induction ops)
  case Nil
  then show ?case by (simp add: originalOf_def updatedOf_def equalCount_def deleteCount_def insertCount_def)
next
  case (Cons x ops)
  then show ?case
    by (cases x) (simp_all add: originalOf_def updatedOf_def equalCount_def deleteCount_def insertCount_def)
qed

lemma buildUnifiedDiff_small:
  "length (splitLines A) * length (splitLines B) \<le> 250000 \<Longrightarrow>
   buildUnifiedDiff A B = join [LF] (diffLinesOf (splitLines A) (splitLines B))"
  by (simp add: buildUnifiedDiff_def Let_def)

lemma editScript_buildUnifiedDiff:
  assumes "length (splitLines A) * length (splitLines B) \<le> 250000"
  shows "editScript (buildUnifiedDiff A B) = map lineOp (diffLinesOf (splitLines A) (splitLines B))"
proof -
  have la: "length (splitLines A) \<le> 250000"
    using guard_length [OF assms splitLines_length_pos] .
  have ne: "diffLinesOf (splitLines A) (splitLines B) \<noteq> []"
    using diffLinesOf_nonempty [OF la] splitLines_length_pos [of A] by auto
  have nolf: "\<forall>l\<in>set (diffLinesOf (splitLines A) (splitLines B)). LF \<notin> set l"
    using diffLinesOf_lines [of "splitLines A" "splitLines B"] splitLines_noLF by blast
  show ?thesis
    by (simp add: buildUnifiedDiff_small [OF assms] editScript_def splitNewline_join [OF ne nolf])
qed

lemma splitLinesFrom_LF: "splitLinesFrom cur (LF # t) = cur # splitLinesFrom [] t"
  by (cases t) simp_all

lemma splitLines_replicate_LF: "length (splitLines (replicate k LF)) = Suc k"
proof -
  have "length (splitLinesFrom cur (replicate k LF)) = Suc k" for cur
    by (induction k arbitrary: cur) (simp_all add: splitLinesFrom_LF)
  then show ?thesis by (simp add: splitLines_def)
qed

text \<open>
  Claim C1 (round trip). For every pair of texts whose line-count product is within the
  ceiling of the size guard, the edit script read from the string that
  \<open>buildUnifiedDiff\<close> returns reconstructs both inputs: the lines of its Equal and
  Delete operations, in order, are the lines of the original text, and the lines of its
  Equal and Insert operations, in order, are the lines of the updated text.
\<close>

theorem buildUnifiedDiff_roundtrip:
  assumes "length (splitLines A) * length (splitLines B) \<le> 250000"
  shows "originalOf (editScript (buildUnifiedDiff A B)) = splitLines A \<and>
         updatedOf (editScript (buildUnifiedDiff A B)) = splitLines B"
proof -
  have la: "length (splitLines A) \<le> 250000"
    using guard_length [OF assms splitLines_length_pos] .
  show ?thesis
    using diffLinesOf_roundtrip [OF la, of "splitLines B"]
    by (simp add: editScript_buildUnifiedDiff [OF assms])
qed

text \<open>The equations that run the diff engine and the reader on a concrete pair of texts.\<close>

lemmas diff_eval = buildUnifiedDiff_def splitLines_def LF_def CR_def diffLinesOf_def
  initialState_def nextRow_def cell_def Let_def editScript_def
  backtrace.simps innerLoop.simps outerLoop.simps

text \<open>The round trip at an original text with a carriage return before the line feed.\<close>

theorem buildUnifiedDiff_roundtrip_witness:
  "length (splitLines (''a'' @ [CR, LF] @ ''b'')) * length (splitLines ''b\<newline>a'') \<le> 250000 \<and>
   originalOf (editScript (buildUnifiedDiff (''a'' @ [CR, LF] @ ''b'') ''b\<newline>a'')) = [''a'', ''b''] \<and>
   updatedOf (editScript (buildUnifiedDiff (''a'' @ [CR, LF] @ ''b'') ''b\<newline>a'')) = [''b'', ''a'']"
proof -
  have sa: "splitLines (''a'' @ [CR, LF] @ ''b'') = [''a'', ''b'']"
    and sb: "splitLines ''b\<newline>a'' = [''b'', ''a'']"
    by (simp_all add: splitLines_def LF_def CR_def)
  have g: "length (splitLines (''a'' @ [CR, LF] @ ''b'')) * length (splitLines ''b\<newline>a'') \<le> 250000"
    unfolding sa sb by simp
  show ?thesis using g buildUnifiedDiff_roundtrip [OF g] unfolding sa sb by blast
qed

text \<open>
  Claim C2 (minimality). Within the ceiling of the size guard, the number of Equal
  operations of the script is the length of a longest common subsequence of the two line
  sequences, and the number of Insert and Delete operations together is \<open>n + m\<close> minus
  twice that length.
\<close>

theorem buildUnifiedDiff_minimal:
  assumes "length (splitLines A) * length (splitLines B) \<le> 250000"
  shows "isLcsLength (splitLines A) (splitLines B) (equalCount (editScript (buildUnifiedDiff A B))) \<and>
         insertCount (editScript (buildUnifiedDiff A B)) + deleteCount (editScript (buildUnifiedDiff A B)) =
           length (splitLines A) + length (splitLines B)
             - 2 * equalCount (editScript (buildUnifiedDiff A B))"
proof -
  let ?ops = "editScript (buildUnifiedDiff A B)"
  have la: "length (splitLines A) \<le> 250000"
    using guard_length [OF assms splitLines_length_pos] .
  have ops: "?ops = map lineOp (diffLinesOf (splitLines A) (splitLines B))"
    by (rule editScript_buildUnifiedDiff [OF assms])
  have "equalCount ?ops = lcsTable (splitLines A) (splitLines B) (length (splitLines A)) (length (splitLines B))"
    unfolding ops by (rule diffLinesOf_equalCount [OF la])
  then have lcs: "isLcsLength (splitLines A) (splitLines B) (equalCount ?ops)"
    using lcsTable_isLcsLength [of "splitLines A" "splitLines B"] by simp
  have rt: "originalOf ?ops = splitLines A" "updatedOf ?ops = splitLines B"
    using diffLinesOf_roundtrip [OF la, of "splitLines B"] unfolding ops by simp_all
  have "length (splitLines A) = equalCount ?ops + deleteCount ?ops"
    "length (splitLines B) = equalCount ?ops + insertCount ?ops"
    using op_counts [of ?ops] rt by simp_all
  then have "insertCount ?ops + deleteCount ?ops =
      length (splitLines A) + length (splitLines B) - 2 * equalCount ?ops" by simp
  with lcs show ?thesis by simp
qed

text \<open>Minimality at the texts with the lines \<open>x, y\<close> and \<open>y, z\<close>.\<close>

theorem buildUnifiedDiff_minimal_witness:
  "length (splitLines ''x\<newline>y'') * length (splitLines ''y\<newline>z'') \<le> 250000 \<and>
   equalCount (editScript (buildUnifiedDiff ''x\<newline>y'' ''y\<newline>z'')) = 1 \<and>
   isLcsLength [''x'', ''y''] [''y'', ''z''] 1 \<and>
   insertCount (editScript (buildUnifiedDiff ''x\<newline>y'' ''y\<newline>z'')) +
     deleteCount (editScript (buildUnifiedDiff ''x\<newline>y'' ''y\<newline>z'')) = 2"
proof -
  have sa: "splitLines ''x\<newline>y'' = [''x'', ''y'']"
    and sb: "splitLines ''y\<newline>z'' = [''y'', ''z'']"
    by (simp_all add: splitLines_def LF_def CR_def)
  have g: "length (splitLines ''x\<newline>y'') * length (splitLines ''y\<newline>z'') \<le> 250000"
    by (simp add: sa sb)
  have e: "equalCount (editScript (buildUnifiedDiff ''x\<newline>y'' ''y\<newline>z'')) = 1"
    by (simp add: diff_eval equalCount_def)
  show ?thesis using g buildUnifiedDiff_minimal [OF g] unfolding e sa sb by simp
qed

text \<open>
  Claim C3 as stated: the lines \<open>a, b\<close> against \<open>b, a\<close> give the script Delete
  \<open>a\<close>, Equal \<open>b\<close>, Insert \<open>a\<close>, rendered \<open>-a\<close>, \<open> b\<close>, \<open>+a\<close>. The function
  returns another script.
\<close>

theorem tie_break_script_counterexample:
  "editScript (buildUnifiedDiff ''a\<newline>b'' ''b\<newline>a'') \<noteq> [Delete ''a'', Equal ''b'', Insert ''a''] \<and>
   buildUnifiedDiff ''a\<newline>b'' ''b\<newline>a'' \<noteq> ''-a\<newline> b\<newline>+a''"
  by (simp add: diff_eval)

text \<open>
  Claim C3, amended (tie-break determinism). On the lines \<open>a, b\<close> against \<open>b, a\<close>
  the two neighbours of the last cell tie, the cell gets the direction up, and
  \<open>buildUnifiedDiff\<close> returns exactly the three operations Insert \<open>b\<close>, Equal
  \<open>a\<close>, Delete \<open>b\<close> in that order: the rendered lines \<open>+b\<close>, \<open> a\<close>, \<open>-b\<close>
  joined by line feeds.
\<close>

theorem tie_break_script:
  "splitLines ''a\<newline>b'' = [''a'', ''b''] \<and> splitLines ''b\<newline>a'' = [''b'', ''a''] \<and>
   buildUnifiedDiff ''a\<newline>b'' ''b\<newline>a'' = ''+b\<newline> a\<newline>-b'' \<and>
   editScript (buildUnifiedDiff ''a\<newline>b'' ''b\<newline>a'') = [Insert ''b'', Equal ''a'', Delete ''b'']"
  by (simp add: diff_eval)

text \<open>
  Claim C4 as stated: the empty text against \<open>x\<close> gives the one operation Insert
  \<open>x\<close>, and \<open>x\<close> against the empty text the one operation Delete \<open>x\<close>. The
  empty text is one empty line, so each script has two operations.
\<close>

theorem empty_cases_counterexample:
  "editScript (buildUnifiedDiff [] ''x'') \<noteq> [Insert ''x''] \<and>
   editScript (buildUnifiedDiff ''x'' []) \<noteq> [Delete ''x'']"
  by (simp add: diff_eval)

text \<open>
  Claim C4, amended (empty cases). The empty text is the one empty line. Two empty texts
  give one Equal operation carrying the empty line; the empty text against \<open>x\<close> gives
  Insert \<open>x\<close> followed by Delete of the empty line; \<open>x\<close> against the empty text
  gives Insert of the empty line followed by Delete \<open>x\<close>.
\<close>

theorem empty_cases:
  "splitLines [] = [[]] \<and>
   editScript (buildUnifiedDiff [] []) = [Equal []] \<and>
   editScript (buildUnifiedDiff [] ''x'') = [Insert ''x'', Delete []] \<and>
   editScript (buildUnifiedDiff ''x'' []) = [Insert [], Delete ''x'']"
  by (simp add: diff_eval)

lemma op_length: "length ops = equalCount ops + insertCount ops + deleteCount ops"
proof (induction ops)
  case Nil
  then show ?case by (simp add: equalCount_def insertCount_def deleteCount_def)
next
  case (Cons x ops)
  then show ?case by (cases x) (simp_all add: equalCount_def insertCount_def deleteCount_def)
qed

lemma all_equal_ops: "equalCount ops = length ops \<Longrightarrow> ops = map Equal (originalOf ops)"
proof (induction ops)
  case Nil
  then show ?case by (simp add: originalOf_def)
next
  case (Cons x ops)
  have le: "equalCount ops \<le> length ops" by (simp add: equalCount_def)
  show ?case
  proof (cases x)
    case (Equal l)
    then have "equalCount ops = length ops" using Cons.prems by (simp add: equalCount_def)
    then have "ops = map Equal (originalOf ops)" by (rule Cons.IH)
    then show ?thesis using Equal by (simp add: originalOf_def)
  next
    case (Insert l)
    then show ?thesis using Cons.prems le by (simp add: equalCount_def)
  next
    case (Delete l)
    then show ?thesis using Cons.prems le by (simp add: equalCount_def)
  qed
qed

text \<open>
  Extra X1 (identity). Within the ceiling of the size guard, the diff of a text against
  itself holds only Equal operations, one for each line of the text.
\<close>

theorem buildUnifiedDiff_identity:
  assumes "length (splitLines A) * length (splitLines A) \<le> 250000"
  shows "editScript (buildUnifiedDiff A A) = map Equal (splitLines A)"
proof -
  let ?a = "splitLines A"
  let ?ops = "editScript (buildUnifiedDiff A A)"
  have la: "length ?a \<le> 250000"
    using guard_length [OF assms splitLines_length_pos] .
  have ops: "?ops = map lineOp (diffLinesOf ?a ?a)"
    by (rule editScript_buildUnifiedDiff [OF assms])
  have "equalCount ?ops = lcsTable ?a ?a (length ?a) (length ?a)"
    unfolding ops by (rule diffLinesOf_equalCount [OF la])
  then have "isLcsLength ?a ?a (equalCount ?ops)"
    using lcsTable_isLcsLength [of ?a ?a] by simp
  then have ge: "length ?a \<le> equalCount ?ops"
    unfolding isLcsLength_def by blast
  have rt: "originalOf ?ops = ?a"
    using diffLinesOf_roundtrip [OF la, of ?a] unfolding ops by simp
  have "length ?a = equalCount ?ops + deleteCount ?ops"
    "length ?a = equalCount ?ops + insertCount ?ops"
    using op_counts [of ?ops] diffLinesOf_roundtrip [OF la, of ?a] unfolding ops by simp_all
  then have "equalCount ?ops = length ?ops"
    using ge op_length [of ?ops] by simp
  then have "?ops = map Equal (originalOf ?ops)" by (rule all_equal_ops)
  then show ?thesis using rt by simp
qed

text \<open>The identity at a text of two lines that ends with a line feed, which is three lines.\<close>

theorem buildUnifiedDiff_identity_witness:
  "length (splitLines ''p\<newline>q\<newline>'') * length (splitLines ''p\<newline>q\<newline>'') \<le> 250000 \<and>
   editScript (buildUnifiedDiff ''p\<newline>q\<newline>'' ''p\<newline>q\<newline>'') = [Equal ''p'', Equal ''q'', Equal []]"
proof -
  have sa: "splitLines ''p\<newline>q\<newline>'' = [''p'', ''q'', []]"
    by (simp add: splitLines_def LF_def CR_def)
  have g: "length (splitLines ''p\<newline>q\<newline>'') * length (splitLines ''p\<newline>q\<newline>'') \<le> 250000"
    unfolding sa by simp
  show ?thesis using g buildUnifiedDiff_identity [OF g] unfolding sa by simp
qed

text \<open>
  Claim C8 (size guard). When the product of the two line counts exceeds 250000,
  \<open>buildUnifiedDiff\<close> returns the fixed message and computes no diff; when the product
  is at most 250000 it returns the rendered lines of the computed script, which is never
  the fixed message.
\<close>

theorem buildUnifiedDiff_size_guard:
  "(length (splitLines A) * length (splitLines B) > 250000 \<longrightarrow>
      buildUnifiedDiff A B =
        ''Diff is too large to render safely. Apply to inspect full changes in note view.'') \<and>
   (length (splitLines A) * length (splitLines B) \<le> 250000 \<longrightarrow>
      buildUnifiedDiff A B = join [LF] (diffLinesOf (splitLines A) (splitLines B)) \<and>
      buildUnifiedDiff A B \<noteq>
        ''Diff is too large to render safely. Apply to inspect full changes in note view.'')"
proof (intro conjI impI)
  assume "length (splitLines A) * length (splitLines B) > 250000"
  then show "buildUnifiedDiff A B =
        ''Diff is too large to render safely. Apply to inspect full changes in note view.''"
    by (simp add: buildUnifiedDiff_def Let_def tooLargeMessage_def)
next
  assume g: "length (splitLines A) * length (splitLines B) \<le> 250000"
  then show "buildUnifiedDiff A B = join [LF] (diffLinesOf (splitLines A) (splitLines B))"
    by (rule buildUnifiedDiff_small)
next
  assume g: "length (splitLines A) * length (splitLines B) \<le> 250000"
  let ?ls = "diffLinesOf (splitLines A) (splitLines B)"
  have la: "length (splitLines A) \<le> 250000"
    using guard_length [OF g splitLines_length_pos] .
  have ne: "?ls \<noteq> []"
    using diffLinesOf_nonempty [OF la] splitLines_length_pos [of A] by auto
  then have "hd ?ls \<in> set ?ls" by simp
  then have h: "hd ?ls \<noteq> []" "hd (hd ?ls) \<in> {CHR '' '', CHR ''+'', CHR ''-''}"
    using diffLinesOf_lines [of "splitLines A" "splitLines B"] splitLines_noLF by blast+
  have "hd (buildUnifiedDiff A B) = hd (hd ?ls)"
    by (simp add: buildUnifiedDiff_small [OF g] hd_join [OF ne h(1)])
  then have "hd (buildUnifiedDiff A B) \<in> {CHR '' '', CHR ''+'', CHR ''-''}" using h(2) by simp
  then show "buildUnifiedDiff A B \<noteq>
        ''Diff is too large to render safely. Apply to inspect full changes in note view.''"
    by auto
qed

text \<open>The guard at two texts of 501 lines each, and at two texts of one line each.\<close>

theorem buildUnifiedDiff_size_guard_witness:
  "length (splitLines (replicate 500 LF)) * length (splitLines (replicate 500 LF)) > 250000 \<and>
   buildUnifiedDiff (replicate 500 LF) (replicate 500 LF) =
     ''Diff is too large to render safely. Apply to inspect full changes in note view.'' \<and>
   length (splitLines ''x'') * length (splitLines ''y'') \<le> 250000 \<and>
   buildUnifiedDiff ''x'' ''y'' \<noteq>
     ''Diff is too large to render safely. Apply to inspect full changes in note view.''"
proof -
  have big: "length (splitLines (replicate 500 LF)) * length (splitLines (replicate 500 LF)) > 250000"
    by (simp add: splitLines_replicate_LF)
  have small: "length (splitLines ''x'') * length (splitLines ''y'') \<le> 250000"
    by (simp add: splitLines_def LF_def CR_def)
  show ?thesis
    using big small
      buildUnifiedDiff_size_guard [of "replicate 500 LF" "replicate 500 LF"]
      buildUnifiedDiff_size_guard [of "''x''" "''y''"]
    by blast
qed

section \<open>The argument vector of the Codex CLI call\<close>



section \<open>The process invoker settles once\<close>

lemma deliver_inv: "settleInv s \<Longrightarrow> settleInv (deliver t s e)"
  by (cases e) (auto simp: settleInv_def onTimeout_def onClose_def onStdoutData_def onStderrData_def Let_def split: if_splits)

lemma foldl_inv: "settleInv s \<Longrightarrow> settleInv (foldl (deliver t) s evs)"
  by (induction evs arbitrary: s) (simp_all add: deliver_inv)

lemma spawnRun_inv: "settleInv (spawnRun t evs)"
  unfolding spawnRun_def by (rule foldl_inv) (simp add: settleInv_def spawnInitial_def)

lemma deliver_settled_calls:
  "settled s \<Longrightarrow> calls (deliver t s e) = calls s \<and> settled (deliver t s e) \<and>
     killSignals (deliver t s e) = killSignals s"
  by (cases e) (auto simp: onTimeout_def onClose_def onStdoutData_def onStderrData_def)

lemma foldl_settled:
  "settled s \<Longrightarrow> calls (foldl (deliver t) s evs) = calls s \<and> settled (foldl (deliver t) s evs)
     \<and> killSignals (foldl (deliver t) s evs) = killSignals s"
  by (induction evs arbitrary: s) (simp_all add: deliver_settled_calls)

lemma outcome_append:
  "settled (spawnRun t evs) \<Longrightarrow> outcome (spawnRun t (evs @ later)) = outcome (spawnRun t evs)"
  using foldl_settled [of "spawnRun t evs" t later]
  by (simp add: spawnRun_def outcome_def)

lemma data_run:
  "\<forall>e\<in>set evs. isData e \<Longrightarrow>
   foldl (deliver t) s evs =
     s\<lparr>stdout := stdout s @ concat (map stdoutChunk evs),
       stderr := stderr s @ concat (map stderrChunk evs)\<rparr>"
proof (induction evs arbitrary: s)
  case Nil
  then show ?case by simp
next
  case (Cons e evs)
  then show ?case
    by (cases e) (simp_all add: onStdoutData_def onStderrData_def)
qed

lemma data_spawnRun:
  "\<forall>e\<in>set evs. isData e \<Longrightarrow>
   spawnRun t evs =
     spawnInitial\<lparr>stdout := concat (map stdoutChunk evs), stderr := concat (map stderrChunk evs)\<rparr>"
  using data_run [of evs t spawnInitial] by (simp add: spawnRun_def spawnInitial_def)

text \<open>
  Claim C6 (idempotent settlement). In every run of the process invoker \<open>resolve\<close> and
  \<open>reject\<close> are called at most once in total, and exactly once when the run has
  settled. Once it has settled, the timeout callback and the close callback leave the
  state as it is, and no later event changes the outcome. In particular, when the timer
  fires before the child closes, the outcome is the timeout rejection, whose message
  carries the text of the timeout, whatever follows.
\<close>

theorem spawnCommand_settles_once:
  "length (calls (spawnRun t evs)) \<le> 1 \<and>
   (settled (spawnRun t evs) \<longleftrightarrow> length (calls (spawnRun t evs)) = 1) \<and>
   (settled (spawnRun t evs) \<longrightarrow>
      onTimeout t (spawnRun t evs) = spawnRun t evs \<and>
      onClose code (spawnRun t evs) = spawnRun t evs \<and>
      outcome (spawnRun t (evs @ later)) = outcome (spawnRun t evs)) \<and>
   ((\<forall>e\<in>set evs. isData e) \<longrightarrow>
      outcome (spawnRun t (evs @ TimerFired # later)) =
        Some (Reject (''Codex CLI timed out after '' @ t @ ''ms.'')))"
proof (intro conjI impI)
  show "length (calls (spawnRun t evs)) \<le> 1"
    using spawnRun_inv [of t evs] by (simp add: settleInv_def split: if_splits)
  show "settled (spawnRun t evs) \<longleftrightarrow> length (calls (spawnRun t evs)) = 1"
    using spawnRun_inv [of t evs] by (auto simp: settleInv_def split: if_splits)
next
  assume "settled (spawnRun t evs)"
  then show "onTimeout t (spawnRun t evs) = spawnRun t evs"
    and "onClose code (spawnRun t evs) = spawnRun t evs"
    and "outcome (spawnRun t (evs @ later)) = outcome (spawnRun t evs)"
    by (simp_all add: onTimeout_def onClose_def outcome_append)
next
  assume d: "\<forall>e\<in>set evs. isData e"
  have fired: "settled (spawnRun t (evs @ [TimerFired]))"
    "calls (spawnRun t (evs @ [TimerFired])) =
       [Reject (''Codex CLI timed out after '' @ t @ ''ms.'')]"
    using data_spawnRun [OF d, of t]
    by (simp_all add: spawnRun_def spawnInitial_def onTimeout_def)
  have "outcome (spawnRun t ((evs @ [TimerFired]) @ later)) = outcome (spawnRun t (evs @ [TimerFired]))"
    by (rule outcome_append [OF fired(1)])
  then show "outcome (spawnRun t (evs @ TimerFired # later)) =
        Some (Reject (''Codex CLI timed out after '' @ t @ ''ms.''))"
    using fired(2) by (simp add: outcome_def)
qed

text \<open>A run in which the timer fires first and the child closes afterwards with exit code 0.\<close>

theorem spawnCommand_settles_once_witness:
  "settled (spawnRun ''60000'' [StdoutData ''ok'', TimerFired]) \<and>
   isData (StdoutData ''ok'') \<and>
   onClose (Some 0) (spawnRun ''60000'' [StdoutData ''ok'', TimerFired]) =
     spawnRun ''60000'' [StdoutData ''ok'', TimerFired] \<and>
   outcome (spawnRun ''60000'' [StdoutData ''ok'', TimerFired, Close (Some 0)]) =
     Some (Reject ''Codex CLI timed out after 60000ms.'') \<and>
   length (calls (spawnRun ''60000'' [StdoutData ''ok'', TimerFired, Close (Some 0)])) = 1"
proof -
  have s: "settled (spawnRun ''60000'' [StdoutData ''ok'', TimerFired])"
    by (simp add: spawnRun_def spawnInitial_def onTimeout_def onStdoutData_def)
  have d: "\<forall>e\<in>set [StdoutData ''ok'']. isData e" by simp
  have l: "length (calls (spawnRun ''60000'' [StdoutData ''ok'', TimerFired, Close (Some 0)])) = 1"
    using spawnCommand_settles_once [of "''60000''" "[StdoutData ''ok'', TimerFired, Close (Some 0)]" "Some 0" "[]"]
    by (simp add: spawnRun_def spawnInitial_def onTimeout_def onStdoutData_def onClose_def)
  show ?thesis
    using s d l spawnCommand_settles_once [of "''60000''" "[StdoutData ''ok'']" "Some 0" "[Close (Some 0)]"]
      spawnCommand_settles_once [of "''60000''" "[StdoutData ''ok'', TimerFired]" "Some 0" "[Close (Some 0)]"]
    by simp
qed

text \<open>
  Claim C7 as stated: a nonzero exit code rejects with the trimmed standard-error text
  whenever standard error is non-empty. Standard error that holds only white space is
  non-empty, and the call is rejected with the generic message.
\<close>

theorem spawnCommand_exit_mapping_counterexample:
  "stderr (spawnRun ''60000'' [StderrData '' '']) \<noteq> [] \<and>
   outcome (spawnRun ''60000'' [StderrData '' '', Close (Some 2)]) =
     Some (Reject ''Codex CLI exited with code 2.'') \<and>
   outcome (spawnRun ''60000'' [StderrData '' '', Close (Some 2)]) \<noteq>
     Some (Reject (trim (stderr (spawnRun ''60000'' [StderrData '' '']))))"
  by (simp add: spawnRun_def spawnInitial_def onClose_def onStderrData_def outcome_def Let_def
      trim_def isWhiteSpace_def showCode_def showInt_def showNat.simps digitChar_def)

text \<open>
  Claim C7, amended (process exit mapping). When the child closes before the timer fires,
  exit code 0 resolves the call with the trimmed accumulated standard output; any other
  exit code, \<open>null\<close> included, rejects it with the trimmed standard-error text when
  that trimmed text is non-empty, and with the generic message
  \<open>Codex CLI exited with code N.\<close> when standard error is empty or holds only white
  space. No later event changes that outcome.
\<close>

theorem spawnCommand_exit_mapping:
  assumes "\<forall>e\<in>set evs. isData e"
  shows "outcome (spawnRun t (evs @ Close code # later)) =
     Some (if code = Some 0 then Resolve (trim (concat (map stdoutChunk evs)))
           else if trim (concat (map stderrChunk evs)) \<noteq> []
             then Reject (trim (concat (map stderrChunk evs)))
           else Reject (''Codex CLI exited with code '' @ showCode code @ ''.''))"
proof -
  let ?r = "if code = Some 0 then Resolve (trim (concat (map stdoutChunk evs)))
           else if trim (concat (map stderrChunk evs)) \<noteq> []
             then Reject (trim (concat (map stderrChunk evs)))
           else Reject (''Codex CLI exited with code '' @ showCode code @ ''.'')"
  have closed: "settled (spawnRun t (evs @ [Close code]))"
    "calls (spawnRun t (evs @ [Close code])) = [?r]"
    using data_spawnRun [OF assms, of t]
    by (simp_all add: spawnRun_def spawnInitial_def onClose_def Let_def)
  have "outcome (spawnRun t ((evs @ [Close code]) @ later)) = outcome (spawnRun t (evs @ [Close code]))"
    by (rule outcome_append [OF closed(1)])
  then show ?thesis using closed(2) by (simp add: outcome_def)
qed

text \<open>Three runs: exit code 0, exit code 2 with text on standard error, and exit code \<open>null\<close>.\<close>

theorem spawnCommand_exit_mapping_witness:
  "isData (StdoutData '' ok'') \<and> isData (StderrData ''bad '') \<and> isData (StdoutData ''ay '') \<and>
   outcome (spawnRun ''60000'' [StdoutData '' ok'', StderrData ''bad '', StdoutData ''ay '', Close (Some 0), TimerFired]) =
     Some (Resolve ''okay'') \<and>
   outcome (spawnRun ''60000'' [StdoutData '' ok'', StderrData ''bad '', StdoutData ''ay '', Close (Some 2), TimerFired]) =
     Some (Reject ''bad'') \<and>
   outcome (spawnRun ''60000'' [Close None]) = Some (Reject ''Codex CLI exited with code null.'')"
proof -
  have d: "\<forall>e\<in>set [StdoutData '' ok'', StderrData ''bad '', StdoutData ''ay '']. isData e" by simp
  have d0: "\<forall>e\<in>set ([] :: event list). isData e" by simp
  show ?thesis
    using d spawnCommand_exit_mapping [OF d, of "''60000''" "Some 0" "[TimerFired]"]
      spawnCommand_exit_mapping [OF d, of "''60000''" "Some 2" "[TimerFired]"]
      spawnCommand_exit_mapping [OF d0, of "''60000''" None "[]"]
    by (simp add: trim_def isWhiteSpace_def showCode_def)
qed

section \<open>Trimmed texts\<close>

lemma dropWhile_clean: "xs \<noteq> [] \<Longrightarrow> \<not> P (hd xs) \<Longrightarrow> dropWhile P xs = xs"
  by (cases xs) simp_all

lemma last_dropWhile_nonempty: "dropWhile P xs \<noteq> [] \<Longrightarrow> last (dropWhile P xs) = last xs"
  by (induction xs) (auto split: if_splits)

lemma trim_clean: "cleanChunk c \<Longrightarrow> trim c = c"
  by (simp add: cleanChunk_def trim_def dropWhile_clean hd_rev)

lemma trim_cleanChunk: "trim t \<noteq> [] \<Longrightarrow> cleanChunk (trim t)"
proof -
  assume ne: "trim t \<noteq> []"
  let ?u = "dropWhile isWhiteSpace t"
  let ?v = "dropWhile isWhiteSpace (rev ?u)"
  have v: "?v \<noteq> []" using ne by (simp add: trim_def)
  then have u: "?u \<noteq> []" by (metis dropWhile.simps(1) rev.simps(1))
  have "\<not> isWhiteSpace (hd ?v)" using v by (rule hd_dropWhile)
  then have l: "\<not> isWhiteSpace (last (trim t))" using v by (simp add: trim_def last_rev)
  have "last ?v = last (rev ?u)" using v by (rule last_dropWhile_nonempty)
  then have "hd (trim t) = hd ?u" using v u by (simp add: trim_def hd_rev last_rev)
  moreover have "\<not> isWhiteSpace (hd ?u)" using u by (rule hd_dropWhile)
  ultimately show ?thesis using ne l by (simp add: cleanChunk_def)
qed

lemma join_clean:
  "chunks \<noteq> [] \<Longrightarrow> \<forall>c\<in>set chunks. cleanChunk c \<Longrightarrow>
   join sep chunks \<noteq> [] \<and> hd (join sep chunks) = hd (hd chunks) \<and>
   last (join sep chunks) = last (last chunks)"
  by (induction sep chunks rule: join.induct) (auto simp: cleanChunk_def)

lemma trim_join_clean: "\<forall>c\<in>set chunks. cleanChunk c \<Longrightarrow> trim (join sep chunks) = join sep chunks"
proof (cases "chunks = []")
  case True
  then show ?thesis by (simp add: trim_def)
next
  case False
  assume a: "\<forall>c\<in>set chunks. cleanChunk c"
  have "hd chunks \<in> set chunks" "last chunks \<in> set chunks" using False by simp_all
  then have "cleanChunk (hd chunks)" "cleanChunk (last chunks)" using a by blast+
  then have "cleanChunk (join sep chunks)"
    using join_clean [OF False a, of sep] by (simp add: cleanChunk_def)
  then show ?thesis by (rule trim_clean)
qed

section \<open>The collected texts of an output list\<close>

lemma collectBlocks_eq:
  "collectBlocks blocks chunks =
     chunks @ map trim (filter (\<lambda>t. trim t \<noteq> [])
       (concat (map (\<lambda>block. case getProp block ''text'' of Some (JStr t) \<Rightarrow> [t] | _ \<Rightarrow> []) blocks)))"
  by (induction blocks arbitrary: chunks) (auto split: option.splits json.splits)

lemma collectItems_eq:
  "collectItems items chunks = chunks @ map trim (filter (\<lambda>t. trim t \<noteq> []) (textBlocks items))"
  by (induction items arbitrary: chunks)
     (auto simp: textBlocks_def blockTexts_def collectBlocks_eq split: option.splits json.splits)

lemma collectItems_clean: "\<forall>c\<in>set (collectItems items []). cleanChunk c"
  by (auto simp: collectItems_eq trim_cleanChunk)

lemma extract_eq:
  "extractTextFromResponseOutput (Some (JArr items)) =
     join [LF, LF] (map trim (filter (\<lambda>t. trim t \<noteq> []) (textBlocks items)))"
  using trim_join_clean [of "collectItems items []" "[LF, LF]", OF collectItems_clean]
  by (simp add: extractTextFromResponseOutput_def collectItems_eq)

text \<open>
  Claim C9 as stated: without a top-level text, every nested text block is collected and
  the collected blocks are joined with a blank line between them. A block whose text holds
  only white space is not collected.
\<close>

theorem responses_normalization_counterexample:
  "textBlocks [JObj [(''content'',
       JArr [JObj [(''text'', JStr ''a'')], JObj [(''text'', JStr '' '')], JObj [(''text'', JStr ''b'')]])]] =
     [''a'', '' '', ''b''] \<and>
   improveWithResponses 200
     (JObj [(''output'', JArr [JObj [(''content'',
       JArr [JObj [(''text'', JStr ''a'')], JObj [(''text'', JStr '' '')], JObj [(''text'', JStr ''b'')]])]])]) =
     Inr ''a\<newline>\<newline>b'' \<and>
   improveWithResponses 200
     (JObj [(''output'', JArr [JObj [(''content'',
       JArr [JObj [(''text'', JStr ''a'')], JObj [(''text'', JStr '' '')], JObj [(''text'', JStr ''b'')]])]])]) \<noteq>
     Inr (join [LF, LF] [''a'', '' '', ''b''])"
  by (simp add: textBlocks_def blockTexts_def improveWithResponses_def
      extractTextFromResponseOutput_def trim_def isWhiteSpace_def LF_def Let_def)

text \<open>
  Claim C9, amended (responses-shape normalization). For a body with a success status,
  \<open>improveWithResponses\<close> returns the trimmed top-level \<open>output_text\<close> when it is
  present and non-empty after trimming. Otherwise it walks the output list and collects,
  across every item in list order, every nested block whose text is a string that does not
  hold only white space, each trimmed; it joins the collected texts with a blank line
  between them and returns the joined text when it is non-empty (with nothing collected
  the call fails with \<open>AI API returned no text.\<close>).
\<close>

theorem responses_normalization:
  assumes "status < 400"
  shows "(getProp (JObj entries) ''output_text'' = Some (JStr t) \<and> trim t \<noteq> [] \<longrightarrow>
            improveWithResponses status (JObj entries) = Inr (trim t)) \<and>
         ((getProp (JObj entries) ''output_text'' = None \<or>
           getProp (JObj entries) ''output_text'' = Some JNull \<or>
           (getProp (JObj entries) ''output_text'' = Some (JStr t) \<and> trim t = [])) \<and>
          getProp (JObj entries) ''output'' = Some (JArr items) \<longrightarrow>
            improveWithResponses status (JObj entries) =
              (if join [LF, LF] (map trim (filter (\<lambda>x. trim x \<noteq> []) (textBlocks items))) = []
               then Inl ''AI API returned no text.''
               else Inr (join [LF, LF] (map trim (filter (\<lambda>x. trim x \<noteq> []) (textBlocks items))))))"
  using assms
  by (auto simp: improveWithResponses_def extract_eq Let_def trim_def)

text \<open>
  A body with a top-level text, and the body with an empty top-level text and the nested
  blocks \<open>hello\<close> and \<open>world\<close>, which normalizes to the two words with a blank line
  between them.
\<close>

theorem responses_normalization_witness:
  "(200 :: nat) < 400 \<and>
   improveWithResponses 200 (JObj [(''output_text'', JStr '' done '')]) = Inr ''done'' \<and>
   improveWithResponses 200
     (JObj [(''output_text'', JStr []),
            (''output'', JArr [JObj [(''content'', JArr [JObj [(''text'', JStr ''hello'')]])],
                               JObj [(''content'', JArr [JObj [(''text'', JStr ''world'')]])]])]) =
     Inr ''hello\<newline>\<newline>world''"
proof -
  have s: "(200 :: nat) < 400" by simp
  have b: "textBlocks [JObj [(''content'', JArr [JObj [(''text'', JStr ''hello'')]])],
                       JObj [(''content'', JArr [JObj [(''text'', JStr ''world'')]])]] = [''hello'', ''world'']"
    by (simp add: textBlocks_def blockTexts_def)
  show ?thesis
    using s
      responses_normalization [OF s, of "[(''output_text'', JStr '' done '')]" "'' done ''" "[]"]
      responses_normalization [OF s,
        of "[(''output_text'', JStr []),
            (''output'', JArr [JObj [(''content'', JArr [JObj [(''text'', JStr ''hello'')]])],
                               JObj [(''content'', JArr [JObj [(''text'', JStr ''world'')]])]])]"
           "[]"
           "[JObj [(''content'', JArr [JObj [(''text'', JStr ''hello'')]])],
             JObj [(''content'', JArr [JObj [(''text'', JStr ''world'')]])]]"]
    by (simp add: b trim_def isWhiteSpace_def LF_def)
qed

text \<open>
  Claim C10 as stated: the normalized result contains no segment that is only white space
  and no segment that starts or ends with white space. A block is trimmed at its two ends
  only: one block whose text has a paragraph of one space between two blank lines is
  returned as it is, and its middle segment is only white space; one block with a
  paragraph that starts with a space gives a segment that starts with white space.
\<close>

theorem extractText_segments_counterexample:
  "extractTextFromResponseOutput
     (Some (JArr [JObj [(''content'', JArr [JObj [(''text'', JStr ''a\<newline>\<newline> \<newline>\<newline>b'')]])]])) =
     ''a\<newline>\<newline> \<newline>\<newline>b'' \<and>
   segmentsOf (extractTextFromResponseOutput
     (Some (JArr [JObj [(''content'', JArr [JObj [(''text'', JStr ''a\<newline>\<newline> \<newline>\<newline>b'')]])]]))) =
     [''a'', '' '', ''b''] \<and>
   trim '' '' = [] \<and>
   segmentsOf (extractTextFromResponseOutput
     (Some (JArr [JObj [(''content'', JArr [JObj [(''text'', JStr ''a\<newline>\<newline> b'')]])]]))) =
     [''a'', '' b''] \<and>
   isWhiteSpace (hd '' b'')"
  by (simp add: extractTextFromResponseOutput_def segmentsOf_def trim_def isWhiteSpace_def LF_def)

text \<open>
  Claim C10, amended (trimming and skipping). \<open>extractTextFromResponseOutput\<close> trims
  each nested text block individually and skips every block whose text is absent, not a
  string, or only white space, and returns the collected chunks joined by a blank line.
  So every chunk it joins is non-empty, holds a character that is not white space, and
  neither starts nor ends with white space, even when the text blocks of the body carry
  white space around them. (White space inside a block, blank lines included, is kept.)
\<close>

theorem extractText_trims_and_skips:
  "extractTextFromResponseOutput (Some (JArr items)) = join [LF, LF] (collectItems items []) \<and>
   collectItems items [] = map trim (filter (\<lambda>t. trim t \<noteq> []) (textBlocks items)) \<and>
   (\<forall>c\<in>set (collectItems items []).
      c \<noteq> [] \<and> \<not> isWhiteSpace (hd c) \<and> \<not> isWhiteSpace (last c) \<and>
      (\<exists>x\<in>set c. \<not> isWhiteSpace x))"
proof (intro conjI ballI)
  show "extractTextFromResponseOutput (Some (JArr items)) = join [LF, LF] (collectItems items [])"
    by (simp add: extract_eq collectItems_eq)
  show "collectItems items [] = map trim (filter (\<lambda>t. trim t \<noteq> []) (textBlocks items))"
    by (simp add: collectItems_eq)
next
  fix c assume "c \<in> set (collectItems items [])"
  then have c: "cleanChunk c" using collectItems_clean by blast
  then show "c \<noteq> []" "\<not> isWhiteSpace (hd c)" "\<not> isWhiteSpace (last c)"
    by (simp_all add: cleanChunk_def)
  from c have "hd c \<in> set c" "\<not> isWhiteSpace (hd c)" by (simp_all add: cleanChunk_def)
  then show "\<exists>x\<in>set c. \<not> isWhiteSpace x" by blast
qed

text \<open>An output list with padded, blank, non-string and missing texts, and an item that is not an object.\<close>

theorem extractText_trims_and_skips_witness:
  "collectItems
     [JObj [(''content'', JArr [JObj [(''text'', JStr ''  hello '')], JObj [(''text'', JStr ''   '')],
                                JObj [(''text'', JNum 5)], JObj [(''kind'', JStr ''x'')]])],
      JStr ''stray'',
      JObj [(''content'', JArr [JObj [(''text'', JStr ''world'')]])]] [] = [''hello'', ''world''] \<and>
   extractTextFromResponseOutput (Some (JArr
     [JObj [(''content'', JArr [JObj [(''text'', JStr ''  hello '')], JObj [(''text'', JStr ''   '')],
                                JObj [(''text'', JNum 5)], JObj [(''kind'', JStr ''x'')]])],
      JStr ''stray'',
      JObj [(''content'', JArr [JObj [(''text'', JStr ''world'')]])]])) = ''hello\<newline>\<newline>world'' \<and>
   \<not> isWhiteSpace (hd ''hello'') \<and> \<not> isWhiteSpace (last ''hello'') \<and>
   \<not> isWhiteSpace (hd ''world'') \<and> \<not> isWhiteSpace (last ''world'')"
proof -
  let ?items = "[JObj [(''content'', JArr [JObj [(''text'', JStr ''  hello '')], JObj [(''text'', JStr ''   '')],
                                JObj [(''text'', JNum 5)], JObj [(''kind'', JStr ''x'')]])],
      JStr ''stray'',
      JObj [(''content'', JArr [JObj [(''text'', JStr ''world'')]])]]"
  have c: "collectItems ?items [] = [''hello'', ''world'']"
    by (simp add: trim_def isWhiteSpace_def)
  note T = extractText_trims_and_skips [of ?items]
  have A: "extractTextFromResponseOutput (Some (JArr ?items)) = join [LF, LF] [''hello'', ''world'']"
    using T [THEN conjunct1] unfolding c .
  have B: "\<forall>c\<in>set [''hello'', ''world'']. c \<noteq> [] \<and> \<not> isWhiteSpace (hd c) \<and> \<not> isWhiteSpace (last c) \<and>
      (\<exists>x\<in>set c. \<not> isWhiteSpace x)"
    using T [THEN conjunct2, THEN conjunct2] unfolding c .
  have B1: "\<not> isWhiteSpace (hd ''hello'') \<and> \<not> isWhiteSpace (last ''hello'')"
    using B [THEN bspec, of "''hello''"] by simp
  have B2: "\<not> isWhiteSpace (hd ''world'') \<and> \<not> isWhiteSpace (last ''world'')"
    using B [THEN bspec, of "''world''"] by simp
  have J: "join [LF, LF] [''hello'', ''world''] = ''hello\<newline>\<newline>world''"
    by (simp add: LF_def)
  show ?thesis using c A B1 B2 unfolding J by blast
qed

section \<open>HTTP status errors\<close>

text \<open>
  Extra X2 (HTTP status error). The status of a response is an integer below 65536, which
  the template literal prints in decimal digits. A status of 400 or more makes \<open>improveWithResponses\<close>
  fail with the message of \<open>readApiError\<close>: the trimmed message of the body's error
  object when there is one that is not blank, and the generic text with the status when
  the body has neither an error object nor a message.
\<close>

theorem http_status_error:
  "400 \<le> status \<Longrightarrow> status < 65536 \<Longrightarrow>
   improveWithResponses status body = Inl (readApiError body status) \<and>
   (getProp body ''error'' = Some (JObj entries) \<and> map_of entries ''message'' = Some (JStr m) \<and>
      trim m \<noteq> [] \<longrightarrow> readApiError body status = trim m) \<and>
   (getProp body ''error'' = None \<and> getProp body ''message'' = None \<longrightarrow>
      readApiError body status = ''API request failed with status '' @ showNat status @ ''.'')"
  by (simp add: improveWithResponses_def readApiError_def)

text \<open>A 404 whose body carries the error message \<open>nope\<close>, and a 500 with an empty body.\<close>

theorem http_status_error_witness:
  "(400 :: nat) \<le> 404 \<and>
   improveWithResponses 404 (JObj [(''error'', JObj [(''message'', JStr ''nope'')])]) = Inl ''nope'' \<and>
   improveWithResponses 500 (JObj []) = Inl ''API request failed with status 500.''"
proof -
  have a: "(400 :: nat) \<le> 404" and b: "(400 :: nat) \<le> 500" by simp_all
  have a': "(404 :: nat) < 65536" and b': "(500 :: nat) < 65536" by simp_all
  have n: "showNat 500 = ''500''" by (simp add: showNat.simps digitChar_def)
  have t: "trim ''nope'' = ''nope''" by (simp add: trim_def isWhiteSpace_def)
  show ?thesis
    using a
      http_status_error [OF a a', of "JObj [(''error'', JObj [(''message'', JStr ''nope'')])]"
        "[(''message'', JStr ''nope'')]" "''nope''"]
      http_status_error [OF b b', of "JObj []" "[]" "[]"]
    by (simp add: n t)
qed

end
